theory Spec2Isabelle
  imports Main "HOL-Library.Word" "HOL-Library.Sublist" "HOL-Library.Multiset"
begin

unbundle bit_operations_syntax

section \<open>Run-time panics of the Go code\<close>

text \<open>
  Every place where the Go run time would panic is a value of this type; a function that
  can panic returns \<open>go_panic + 'a\<close> with \<open>Inl\<close> for the panic.
\<close>

datatype go_panic =
    MakechanSizeOutOfRange
  | SendOnClosedChannel
  | CloseOfClosedChannel
  | NilDereference
  | IndexOutOfRange
  | CallbackPanic

definition bind_panic :: "go_panic + 'a \<Rightarrow> ('a \<Rightarrow> go_panic + 'b) \<Rightarrow> go_panic + 'b" where
  "bind_panic m f = (case m of Inl e \<Rightarrow> Inl e | Inr x \<Rightarrow> f x)"

section \<open>UID: a 16-byte identifier living in memory\<close>

text \<open>
  \<open>UIDFromString\<close> and \<open>ToString\<close> reinterpret memory through \<open>unsafe\<close>, and
  \<open>NewUID\<close> writes through a pointer, so memory is explicit: a store from addresses to
  bytes. A Go string is its header (data pointer and length); a \<open>*UID\<close> is an address or
  nil; a \<open>UID\<close> value (the receiver of \<open>IsValid\<close>) is the 16 bytes at that address.
\<close>

type_synonym byte = "8 word"
type_synonym uint32 = "32 word"
type_synonym addr = nat
type_synonym memory = "addr \<Rightarrow> byte"

record go_string =
  str_data :: addr
  str_len :: nat

definition bytes_of :: "memory \<Rightarrow> go_string \<Rightarrow> byte list" where
  "bytes_of mem s = map mem [str_data s ..< str_data s + str_len s]"

definition load_UID :: "memory \<Rightarrow> addr \<Rightarrow> byte list" where
  "load_UID mem p = map mem [p ..< p + 16]"

definition randChars :: "byte list" where
  "randChars = map of_char
     ''abcdefghijklmnopqrstuvwxyzABCDEFGHIJKLMNOPQRSTUVWXYZ0123456789_-''"

definition UIDFromString :: "go_string \<Rightarrow> addr option" where
  "UIDFromString s = (if str_len s < 16 then None else Some (str_data s))"

fun ToString :: "addr option \<Rightarrow> go_panic + go_string" where
  "ToString None = Inl NilDereference"
| "ToString (Some p) = Inr \<lparr>str_data = p, str_len = 16\<rparr>"

definition valid_byte :: "byte \<Rightarrow> bool" where
  "valid_byte b \<longleftrightarrow>
     (b \<ge> of_char CHR ''a'' \<and> b \<le> of_char CHR ''z'') \<or>
     (b \<ge> of_char CHR ''A'' \<and> b \<le> of_char CHR ''Z'') \<or>
     (b \<ge> of_char CHR ''0'' \<and> b \<le> of_char CHR ''9'') \<or>
     b = of_char CHR ''_'' \<or> b = of_char CHR ''-''"

function IsValid_from :: "nat \<Rightarrow> byte list \<Rightarrow> bool" where
  "IsValid_from i uid =
     (if i < 16 then
        (let b = uid ! i in
         if valid_byte b then IsValid_from (i + 1) uid else False)
      else True)"
  by pat_completeness auto
termination
  by (relation "measure (\<lambda>(i, uid). 16 - i)") auto

declare IsValid_from.simps [simp del]

definition IsValid :: "byte list \<Rightarrow> bool" where
  "IsValid uid = IsValid_from 0 uid"

text \<open>\<open>randChars[i]\<close>: Go checks the index of a string against its length.\<close>

definition index_randChars :: "uint32 \<Rightarrow> go_panic + byte" where
  "index_randChars i =
     (if unat i < length randChars then Inr (randChars ! unat i) else Inl IndexOutOfRange)"

text \<open>One assignment \<open>b[k] = randChars[i]\<close> through the non-nil pointer \<open>p\<close>.\<close>

definition assign_char :: "addr \<Rightarrow> memory \<Rightarrow> nat \<times> uint32 \<Rightarrow> go_panic + memory" where
  "assign_char p mem ki =
     (case index_randChars (snd ki) of
        Inl e \<Rightarrow> Inl e
      | Inr c \<Rightarrow> Inr (mem(p + fst ki := c)))"

text \<open>
  The sixteen assignments of \<open>NewUID\<close>, in source order, as pairs of the array index and
  the index into \<open>randChars\<close>. The three arguments are the three results of \<open>Fastrand()\<close>,
  an unsigned 32-bit value each.
\<close>

definition NewUID_assignments :: "uint32 \<Rightarrow> uint32 \<Rightarrow> uint32 \<Rightarrow> (nat \<times> uint32) list" where
  "NewUID_assignments rnd1 rnd2 rnd3 =
     [(0, rnd1 AND 63),
      (1, drop_bit 6 rnd1 AND 63),
      (2, drop_bit 12 rnd1 AND 63),
      (3, drop_bit 18 rnd1 AND 63),
      (4, drop_bit 24 rnd1 AND 63),
      (5, rnd2 AND 63),
      (6, drop_bit 6 rnd2 AND 63),
      (7, drop_bit 12 rnd2 AND 63),
      (8, drop_bit 18 rnd2 AND 63),
      (9, drop_bit 24 rnd2 AND 63),
      (10, rnd3 AND 63),
      (11, drop_bit 6 rnd3 AND 63),
      (12, drop_bit 12 rnd3 AND 63),
      (13, drop_bit 18 rnd3 AND 63),
      (14, drop_bit 24 rnd3 AND 63),
      (15, (drop_bit 30 rnd1 AND 3) OR push_bit 2 (drop_bit 30 rnd2 AND 3)
             OR push_bit 4 (drop_bit 30 rnd3 AND 3))]"

fun run_assignments :: "addr \<Rightarrow> (nat \<times> uint32) list \<Rightarrow> memory \<Rightarrow> go_panic + memory" where
  "run_assignments p [] mem = Inr mem"
| "run_assignments p (ki # rest) mem = bind_panic (assign_char p mem ki) (run_assignments p rest)"

fun NewUID :: "memory \<Rightarrow> addr option \<Rightarrow> uint32 \<Rightarrow> uint32 \<Rightarrow> uint32 \<Rightarrow> go_panic + memory" where
  "NewUID mem None rnd1 rnd2 rnd3 = Inl NilDereference"
| "NewUID mem (Some p) rnd1 rnd2 rnd3 = run_assignments p (NewUID_assignments rnd1 rnd2 rnd3) mem"

text \<open>
  What the proofs say about one assignment: its index into \<open>randChars\<close> is in bounds, and
  the store it performs then.
\<close>

definition in_bounds :: "nat \<times> uint32 \<Rightarrow> bool" where
  "in_bounds ki \<longleftrightarrow> unat (snd ki) < 64"

definition written :: "addr \<Rightarrow> nat \<times> uint32 \<Rightarrow> memory \<Rightarrow> memory" where
  "written p ki mem = mem(p + fst ki := randChars ! unat (snd ki))"

section \<open>JSON deserialization wrappers\<close>

text \<open>
  An \<open>io.Reader\<close> is what reading it to its end gives: the chunks of bytes that its
  \<open>Read\<close> calls deliver and how the reading ends, at EOF (\<open>None\<close>) or with an
  error. \<open>io.ReadAll\<close> of the Go library returns the bytes read and no error at EOF,
  and the bytes read so far with the error otherwise.

  \<open>json.Unmarshal(b, p)\<close> of goccy/go-json is a parameter: from the bytes and the
  value that \<open>p\<close> points at, it gives an error or none, and the value that \<open>p\<close>
  points at afterwards; what it answers for a nil \<open>p\<close> is a parameter too.

  A \<open>*T\<close> is \<open>None\<close> for nil, or \<open>Some v\<close> for a pointer at a variable holding
  \<open>v\<close>. \<open>UnmarshalPointer\<close> returns, with its two results, what its argument points
  at in the end.
\<close>

record 'e reader =
  chunks :: "byte list list"
  failure :: "'e option"

definition ReadAll :: "'e reader \<Rightarrow> byte list \<times> 'e option" where
  "ReadAll rc = (concat (chunks rc), failure rc)"

record ('v, 'e) json_lib =
  unmarshal :: "byte list \<Rightarrow> 'v \<Rightarrow> 'e option \<times> 'v"
  unmarshal_nil :: "byte list \<Rightarrow> 'e option"

definition Unmarshal :: "'v \<Rightarrow> ('v, 'e) json_lib \<Rightarrow> 'e reader \<Rightarrow> 'v option \<times> 'e option" where
  "Unmarshal zero lib rc =
     (case ReadAll rc of
        (b, Some err) \<Rightarrow> (None, Some err)
      | (b, None) \<Rightarrow>
          (case unmarshal lib b zero of
             (Some err, res) \<Rightarrow> (None, Some err)
           | (None, res) \<Rightarrow> (Some res, None)))"

definition UnmarshalPointer ::
  "('v, 'e) json_lib \<Rightarrow> 'v option \<Rightarrow> 'e reader \<Rightarrow> ('v option \<times> 'e option) \<times> 'v option" where
  "UnmarshalPointer lib inp rc =
     (case ReadAll rc of
        (b, Some err) \<Rightarrow> ((None, Some err), inp)
      | (b, None) \<Rightarrow>
          (case inp of
             None \<Rightarrow>
               (case unmarshal_nil lib b of
                  Some err \<Rightarrow> ((None, Some err), None)
                | None \<Rightarrow> ((None, None), None))
           | Some v \<Rightarrow>
               (case unmarshal lib b v of
                  (Some err, v') \<Rightarrow> ((None, Some err), Some v')
                | (None, v') \<Rightarrow> ((Some v', None), Some v'))))"

text \<open>
  A deserializer to run the wrappers on: it refuses empty input and stores any other
  input as it is.
\<close>

definition raw_lib :: "(byte list, string) json_lib" where
  "raw_lib = \<lparr>unmarshal = (\<lambda>b v. if b = [] then (Some ''unexpected end of JSON input'', v)
                               else (None, b)),
              unmarshal_nil = (\<lambda>b. Some ''json: Unmarshal(nil)'')\<rparr>"

section \<open>ThreaderManager: the worker pool\<close>

text \<open>
  \<open>int\<close> is modelled at 64 bits and read as a signed value (\<open>sint\<close>); the atomic
  counter is an \<open>int64\<close>, on which addition wraps around.
\<close>

type_synonym int64 = "64 word"
type_synonym go_int = "64 word"

subsection \<open>Channels\<close>

text \<open>
  A channel is its buffer (oldest element first), its capacity and whether it has been
  closed. \<open>make(chan T, size)\<close> panics when \<open>size\<close> is negative or larger than the run
  time can allocate for the element type; that largest size is the parameter \<open>limit\<close>.
\<close>

record 'a chan =
  buf :: "'a list"
  cap :: nat
  closed :: bool

definition makechan :: "go_int \<Rightarrow> go_int \<Rightarrow> go_panic + 'a chan" where
  "makechan limit n =
     (if n <s 0 \<or> limit <s n then Inl MakechanSizeOutOfRange
      else Inr \<lparr>buf = [], cap = nat (sint n), closed = False\<rparr>)"

definition close_chan :: "'a chan \<Rightarrow> go_panic + 'a chan" where
  "close_chan c = (if closed c then Inl CloseOfClosedChannel else Inr (c\<lparr>closed := True\<rparr>))"

subsection \<open>The struct and its constructor\<close>

text \<open>
  The callback is the caller's code: it works on some state \<open>'w\<close> of the caller's, and
  \<open>None\<close> is a panic inside it.
\<close>

record ('a, 'w) ThreaderManager =
  channel :: "'a chan"
  workers :: go_int
  callback :: "'a \<Rightarrow> 'w \<Rightarrow> 'w option"
  counter :: int64

definition NewThreadManager ::
  "go_int \<Rightarrow> go_int \<Rightarrow> ('a \<Rightarrow> 'w \<Rightarrow> 'w option) \<Rightarrow> go_panic + ('a, 'w) ThreaderManager" where
  "NewThreadManager limit n cb =
     (case makechan limit n of
        Inl e \<Rightarrow> Inl e
      | Inr c \<Rightarrow> Inr \<lparr>channel = c, workers = n, callback = cb, counter = 0\<rparr>)"

definition IsDone :: "('a, 'w) ThreaderManager \<Rightarrow> bool" where
  "IsDone t \<longleftrightarrow> counter t = 0"

definition Stop :: "('a, 'w) ThreaderManager \<Rightarrow> go_panic + ('a, 'w) ThreaderManager" where
  "Stop t =
     (case close_chan (channel t) of
        Inl e \<Rightarrow> Inl e
      | Inr c \<Rightarrow> Inr (t\<lparr>channel := c\<rparr>))"

subsection \<open>Goroutines and the state of a running pool\<close>

text \<open>
  A worker goroutine is at the receive of its \<open>range\<close> loop, inside the callback with
  the item it received, between the callback's return and the atomic decrement, or has
  left the loop.
\<close>

datatype 'a worker = Receiving | Calling 'a | Returned | Exited

text \<open>
  The state of the program around one pool: the struct, the worker goroutines that
  \<open>Start\<close> launched, the calling goroutine (inside \<open>Feed x\<close>, past the atomic increment
  and at the channel send, or outside \<open>Feed\<close>), and the state the callback works on.
  Three histories record what has happened, for the statements about it: the items of
  the \<open>Feed\<close> calls, the items received by workers (each is passed to the callback at
  once), and the items whose callback has returned, each in order of occurrence.
\<close>

record ('a, 'w) pool_state =
  tm :: "('a, 'w) ThreaderManager"
  goroutines :: "'a worker list"
  feeding :: "'a option"
  world :: 'w
  fed :: "'a list"
  dequeued :: "'a list"
  completed :: "'a list"

definition boot :: "('a, 'w) ThreaderManager \<Rightarrow> 'w \<Rightarrow> ('a, 'w) pool_state" where
  "boot t w = \<lparr>tm = t, goroutines = [], feeding = None, world = w,
               fed = [], dequeued = [], completed = []\<rparr>"

text \<open>\<open>for i := 0; i < tm.workers; i++ { go func() {...}() }\<close>\<close>

function Start_loop :: "go_int \<Rightarrow> go_int \<Rightarrow> 'a worker list \<Rightarrow> 'a worker list" where
  "Start_loop i n gs = (if i <s n then Start_loop (i + 1) n (gs @ [Receiving]) else gs)"
  by pat_completeness auto
termination
proof (relation "measure (\<lambda>(i, n, gs). nat (sint n - sint i))")
  show "wf (measure (\<lambda>(i :: go_int, n :: go_int, gs :: 'a worker list). nat (sint n - sint i)))"
    by simp
next
  fix i n :: go_int and gs :: "'a worker list"
  assume "i <s n"
  then have lt: "sint i < sint n" by (simp add: word_sless_alt)
  have "sint n < 2 ^ 63" using sint_lt [of n] by simp
  moreover have "- (2 ^ 63) \<le> sint i" using sint_ge [of i] by simp
  ultimately have "signed_take_bit 63 (sint i + 1) = sint i + 1"
    using lt by (intro signed_take_bit_int_eq_self) auto
  then have "sint (i + 1) = sint i + 1" by (simp add: sint_word_add)
  with lt show "((i + 1, n, gs @ [Receiving]), (i, n, gs))
      \<in> measure (\<lambda>(i, n, gs). nat (sint n - sint i))"
    by simp
qed

declare Start_loop.simps [simp del]

definition Start :: "('a, 'w) pool_state \<Rightarrow> ('a, 'w) pool_state" where
  "Start s = s\<lparr>goroutines := Start_loop 0 (workers (tm s)) (goroutines s)\<rparr>"

text \<open>
  \<open>Feed\<close> is two steps of the calling goroutine. The first, \<open>atomic.AddInt64(&tm.counter, 1)\<close>,
  is \<open>Feed_add\<close>; the second is the channel send, which returns once the item is in the
  buffer (\<open>Feed_send\<close>) or has been handed to a worker waiting at its receive
  (\<open>Feed_handoff\<close>), and panics on a closed channel.
\<close>

datatype 's outcome = Next 's | Blocked | Panic go_panic

definition Feed_add :: "'a \<Rightarrow> ('a, 'w) pool_state \<Rightarrow> ('a, 'w) pool_state" where
  "Feed_add x s =
     s\<lparr>tm := (tm s)\<lparr>counter := counter (tm s) + 1\<rparr>, feeding := Some x, fed := fed s @ [x]\<rparr>"

definition Feed_send :: "('a, 'w) pool_state \<Rightarrow> ('a, 'w) pool_state outcome" where
  "Feed_send s =
     (case feeding s of
        None \<Rightarrow> Blocked
      | Some x \<Rightarrow>
          let c = channel (tm s) in
          if closed c then Panic SendOnClosedChannel
          else if length (buf c) < cap c then
            Next (s\<lparr>tm := (tm s)\<lparr>channel := c\<lparr>buf := buf c @ [x]\<rparr>\<rparr>, feeding := None\<rparr>)
          else Blocked)"

definition Feed_handoff :: "nat \<Rightarrow> ('a, 'w) pool_state \<Rightarrow> ('a, 'w) pool_state outcome" where
  "Feed_handoff i s =
     (case feeding s of
        None \<Rightarrow> Blocked
      | Some x \<Rightarrow>
          let c = channel (tm s) in
          if closed c then Panic SendOnClosedChannel
          else if i < length (goroutines s) \<and> goroutines s ! i = Receiving \<and> buf c = [] then
            Next (s\<lparr>goroutines := (goroutines s)[i := Calling x], feeding := None,
                    dequeued := dequeued s @ [x]\<rparr>)
          else Blocked)"

text \<open>
  The steps of worker \<open>i\<close>, the body of its goroutine:
  \<open>for in := range tm.channel { tm.callback(in); atomic.AddInt64(&tm.counter, -1) }\<close>.
  It receives the oldest buffered item and enters the callback with it; the callback
  returns (or panics); the counter is decremented and the worker is back at the receive;
  at a closed and empty channel the loop ends.
\<close>

definition worker_receive :: "nat \<Rightarrow> ('a, 'w) pool_state \<Rightarrow> ('a, 'w) pool_state outcome" where
  "worker_receive i s =
     (let c = channel (tm s) in
      if i < length (goroutines s) \<and> goroutines s ! i = Receiving then
        (case buf c of
           [] \<Rightarrow> Blocked
         | x # rest \<Rightarrow>
             Next (s\<lparr>tm := (tm s)\<lparr>channel := c\<lparr>buf := rest\<rparr>\<rparr>,
                     goroutines := (goroutines s)[i := Calling x],
                     dequeued := dequeued s @ [x]\<rparr>))
      else Blocked)"

definition worker_return :: "nat \<Rightarrow> ('a, 'w) pool_state \<Rightarrow> ('a, 'w) pool_state outcome" where
  "worker_return i s =
     (if i < length (goroutines s) then
        (case goroutines s ! i of
           Calling x \<Rightarrow>
             (case callback (tm s) x (world s) of
                None \<Rightarrow> Panic CallbackPanic
              | Some w \<Rightarrow>
                  Next (s\<lparr>goroutines := (goroutines s)[i := Returned], world := w,
                          completed := completed s @ [x]\<rparr>))
         | _ \<Rightarrow> Blocked)
      else Blocked)"

definition worker_decrement :: "nat \<Rightarrow> ('a, 'w) pool_state \<Rightarrow> ('a, 'w) pool_state outcome" where
  "worker_decrement i s =
     (if i < length (goroutines s) \<and> goroutines s ! i = Returned then
        Next (s\<lparr>tm := (tm s)\<lparr>counter := counter (tm s) - 1\<rparr>,
                goroutines := (goroutines s)[i := Receiving]\<rparr>)
      else Blocked)"

definition worker_exit :: "nat \<Rightarrow> ('a, 'w) pool_state \<Rightarrow> ('a, 'w) pool_state outcome" where
  "worker_exit i s =
     (let c = channel (tm s) in
      if i < length (goroutines s) \<and> goroutines s ! i = Receiving \<and> buf c = [] \<and> closed c then
        Next (s\<lparr>goroutines := (goroutines s)[i := Exited]\<rparr>)
      else Blocked)"

subsection \<open>Interleavings\<close>

text \<open>
  An action is one atomic step of one goroutine; a schedule is a list of actions. The
  caller is one goroutine: it enters \<open>Feed\<close> only when its previous \<open>Feed\<close> has returned.
  \<open>Blocked\<close> says that the action cannot take place in the state: its goroutine is
  suspended, or is not at that point of its code. \<open>IsDone\<close> and \<open>Stop\<close> may be called
  from any goroutine at any time.
\<close>

datatype 'a action =
    CallFeed 'a
  | Send
  | Handoff nat
  | Receive nat
  | Return nat
  | Decrement nat
  | Exit nat
  | CallIsDone
  | CallStop

fun step :: "'a action \<Rightarrow> ('a, 'w) pool_state \<Rightarrow> ('a, 'w) pool_state outcome" where
  "step (CallFeed x) s = (case feeding s of None \<Rightarrow> Next (Feed_add x s) | Some y \<Rightarrow> Blocked)"
| "step Send s = Feed_send s"
| "step (Handoff i) s = Feed_handoff i s"
| "step (Receive i) s = worker_receive i s"
| "step (Return i) s = worker_return i s"
| "step (Decrement i) s = worker_decrement i s"
| "step (Exit i) s = worker_exit i s"
| "step CallIsDone s = Next s"
| "step CallStop s = (case Stop (tm s) of Inl e \<Rightarrow> Panic e | Inr t \<Rightarrow> Next (s\<lparr>tm := t\<rparr>))"

fun run :: "'a action list \<Rightarrow> ('a, 'w) pool_state \<Rightarrow> ('a, 'w) pool_state outcome" where
  "run [] s = Next s"
| "run (a # sched) s =
     (case step a s of
        Next s' \<Rightarrow> run sched s'
      | Blocked \<Rightarrow> Blocked
      | Panic e \<Rightarrow> Panic e)"

subsection \<open>What the statements about a running pool speak of\<close>

text \<open>
  The item the caller is sending, as a list; the item a worker has inside the callback;
  whether a worker holds an item that the counter still counts; the number of items
  between the increment of \<open>Feed\<close> and the decrement of a worker.
\<close>

definition pending :: "'a option \<Rightarrow> 'a list" where
  "pending f = (case f of None \<Rightarrow> [] | Some x \<Rightarrow> [x])"

fun in_callback :: "'a worker \<Rightarrow> 'a list" where
  "in_callback (Calling x) = [x]"
| "in_callback Receiving = []"
| "in_callback Returned = []"
| "in_callback Exited = []"

fun busy :: "'a worker \<Rightarrow> bool" where
  "busy (Calling x) = True"
| "busy Returned = True"
| "busy Receiving = False"
| "busy Exited = False"

definition in_flight :: "('a, 'w) pool_state \<Rightarrow> nat" where
  "in_flight s =
     length (pending (feeding s)) + length (buf (channel (tm s)))
       + length (filter busy (goroutines s))"

text \<open>
  No item is on its way: the caller is outside \<open>Feed\<close>, the buffer is empty and no
  worker holds an item (each is at its receive or has left its loop).
\<close>

definition quiescent :: "('a, 'w) pool_state \<Rightarrow> bool" where
  "quiescent s \<longleftrightarrow>
     feeding s = None \<and> buf (channel (tm s)) = [] \<and> filter busy (goroutines s) = []"

text \<open>
  The invariant of the interleavings: the histories, the buffer and the workers account
  for every fed item, and the counter is the number of items on their way. The capacity
  and the number of workers bound that number, which keeps the counter from wrapping.
\<close>

definition pool_inv :: "('a, 'w) pool_state \<Rightarrow> bool" where
  "pool_inv s \<longleftrightarrow>
     fed s = dequeued s @ buf (channel (tm s)) @ pending (feeding s) \<and>
     mset (dequeued s) = mset (completed s) + mset (concat (map in_callback (goroutines s))) \<and>
     counter (tm s) = of_nat (in_flight s) \<and>
     length (buf (channel (tm s))) \<le> cap (channel (tm s))"

definition pool_size :: "('a, 'w) pool_state \<Rightarrow> nat" where
  "pool_size s = cap (channel (tm s)) + length (goroutines s)"

text \<open>
  The callback called on each item of a list in turn, once each, from a given state of
  the caller's: the state it leaves, or \<open>None\<close> when one of the calls panics.
\<close>

fun run_callbacks :: "('a \<Rightarrow> 'w \<Rightarrow> 'w option) \<Rightarrow> 'a list \<Rightarrow> 'w \<Rightarrow> 'w option" where
  "run_callbacks cb [] w = Some w"
| "run_callbacks cb (x # xs) w =
     (case cb x w of None \<Rightarrow> None | Some w' \<Rightarrow> run_callbacks cb xs w')"

subsection \<open>The scenario of the package's test\<close>

text \<open>
  \<open>TestThreader\<close>: two workers, a callback that records the item it handled, the four
  items fed in order, \<open>IsDone\<close> polled, then \<open>Stop\<close>. The schedule is one
  interleaving of it, in which the workers finish the items out of order.
\<close>

definition test_callback :: "string \<Rightarrow> string list \<Rightarrow> string list option" where
  "test_callback x w = Some (w @ [x])"

definition test_schedule :: "string action list" where
  "test_schedule =
     [CallFeed ''Foo'', Send, CallFeed ''Baar'', Receive 0, Send, CallFeed ''Baloo'',
      Receive 1, Send, CallFeed ''Golang'', Send, Return 1, Decrement 1, Receive 1,
      Return 0, Decrement 0, Receive 0, CallIsDone]"

definition test_schedule_rest :: "string action list" where
  "test_schedule_rest =
     [Return 0, Decrement 0, Return 1, Decrement 1, CallIsDone, CallStop, Exit 0, Exit 1]"

definition test_tm :: "(string, string list) ThreaderManager" where
  "test_tm = \<lparr>channel = \<lparr>buf = [], cap = 2, closed = False\<rparr>, workers = 2,
               callback = test_callback, counter = 0\<rparr>"

text \<open>The pool that a worker count of zero gives.\<close>

definition zero_tm :: "(string, string list) ThreaderManager" where
  "zero_tm = \<lparr>channel = \<lparr>buf = [], cap = 0, closed = False\<rparr>, workers = 0,
               callback = test_callback, counter = 0\<rparr>"

text \<open>A pool without workers and without buffer, through which nothing has passed.\<close>

definition no_workers :: "('a, 'w) pool_state \<Rightarrow> bool" where
  "no_workers s \<longleftrightarrow>
     goroutines s = [] \<and> cap (channel (tm s)) = 0 \<and> buf (channel (tm s)) = [] \<and>
     dequeued s = [] \<and> completed s = []"

text \<open>
  A pool at rest that can take an item: nothing is on its way, the channel is open and
  has room, and the first worker waits at its receive.
\<close>

definition idle :: "('a, 'w) pool_state \<Rightarrow> bool" where
  "idle s \<longleftrightarrow>
     quiescent s \<and> \<not> closed (channel (tm s)) \<and> 0 < cap (channel (tm s)) \<and>
     take 1 (goroutines s) = [Receiving]"

section \<open>UID: generated identifiers are valid, and the string round trip\<close>

lemma randChars_len: "length randChars = 64"
  by (simp add: randChars_def)

lemma randChars_valid: "list_all valid_byte randChars"
  by (simp add: randChars_def valid_byte_def)

lemma mask63: "unat (x AND (63::uint32)) < 64"
proof -
  have "unat (x AND 63) \<le> unat (63 :: uint32)"
    by (rule word_and_le1 [THEN word_le_nat_alt [THEN iffD1]])
  then show ?thesis by simp
qed

lemma three_mask: "(3::uint32) = mask 2"
  by (simp add: mask_eq_exp_minus_1)

lemma sixtythree_mask: "(63::uint32) = mask 6"
  by (simp add: mask_eq_exp_minus_1)

text \<open>The sixteenth index is assembled from three 2-bit fields: it has six bits.\<close>

lemma last_index_bound:
  "unat ((drop_bit 30 (r1::uint32) AND 3) OR push_bit 2 (drop_bit 30 (r2::uint32) AND 3)
           OR push_bit 4 (drop_bit 30 (r3::uint32) AND 3)) < 64"
proof -
  let ?y = "(drop_bit 30 r1 AND 3) OR push_bit 2 (drop_bit 30 r2 AND 3)
             OR push_bit 4 (drop_bit 30 r3 AND 3)"
  have "?y AND 63 = ?y"
    unfolding three_mask sixtythree_mask take_bit_eq_mask [symmetric]
    by (auto simp add: bit_eq_iff bit_simps)
  then show ?thesis using mask63 [of ?y] by simp
qed

lemma assignments_in_bounds: "list_all in_bounds (NewUID_assignments rnd1 rnd2 rnd3)"
  by (simp only: NewUID_assignments_def list.pred_inject in_bounds_def snd_conv mask63
        last_index_bound simp_thms)

lemma run_assignments_ok:
  "list_all in_bounds kis \<Longrightarrow> run_assignments p kis mem = Inr (fold (written p) kis mem)"
  by (induction kis arbitrary: mem)
     (simp_all add: bind_panic_def assign_char_def index_randChars_def randChars_len
        in_bounds_def written_def)

lemma upt16: "[p ..< p + 16] = map (\<lambda>k. p + k) [0,1,2,3,4,5,6,7,8,9,10,11,12,13,14,15]"
proof -
  have "[p ..< p + 16] = map (\<lambda>k. p + k) [0 ..< 16]"
    by (simp add: map_add_upt add.commute)
  also have "[0 ..< 16] = [0,1,2,3,4,5,6,7,8,9,10,11,12,13,14,15::nat]"
    by (simp add: upt_rec)
  finally show ?thesis .
qed

lemma load_after:
  "load_UID (fold (written p) (NewUID_assignments rnd1 rnd2 rnd3) mem) p
     = map (\<lambda>ki. randChars ! unat (snd ki)) (NewUID_assignments rnd1 rnd2 rnd3)"
  by (simp add: load_UID_def upt16 NewUID_assignments_def written_def)

text \<open>The loop of \<open>IsValid\<close> checks exactly the bytes at the indexes from \<open>i\<close> to 15.\<close>

lemma IsValid_from_iff:
  "IsValid_from i uid \<longleftrightarrow> (\<forall>k. i \<le> k \<and> k < 16 \<longrightarrow> valid_byte (uid ! k))"
proof (induction i uid rule: IsValid_from.induct)
  case (1 i uid)
  show ?case
  proof (cases "i < 16")
    case True
    show ?thesis
    proof (cases "valid_byte (uid ! i)")
      case v: True
      have "IsValid_from i uid = IsValid_from (i + 1) uid"
        using True v by (subst IsValid_from.simps) simp
      also have "\<dots> \<longleftrightarrow> (\<forall>k. i + 1 \<le> k \<and> k < 16 \<longrightarrow> valid_byte (uid ! k))"
        using 1 [OF True refl v] .
      also have "\<dots> \<longleftrightarrow> (\<forall>k. i \<le> k \<and> k < 16 \<longrightarrow> valid_byte (uid ! k))"
        using v by (metis Suc_eq_plus1 Suc_leI le_neq_implies_less le_simps(3) less_imp_le_nat)
      finally show ?thesis .
    next
      case False
      then show ?thesis using True by (subst IsValid_from.simps) auto
    qed
  next
    case False
    then show ?thesis by (subst IsValid_from.simps) auto
  qed
qed

lemma IsValid_list_all: "length uid = 16 \<Longrightarrow> IsValid uid \<longleftrightarrow> list_all valid_byte uid"
  by (simp add: IsValid_def IsValid_from_iff list_all_length)

lemma chars_valid:
  "list_all in_bounds kis \<Longrightarrow>
   list_all valid_byte (map (\<lambda>ki. randChars ! unat (snd ki)) kis)"
  using randChars_valid
  by (simp add: list_all_length in_bounds_def randChars_len)

text \<open>
  Claim C9. Whatever three 32-bit values the random source returns, \<open>NewUID\<close> on a
  non-nil UID does not panic: each of the sixteen indexes into \<open>randChars\<close> is below 64,
  the length of the table. Each of the sixteen bytes of the UID is written with the
  table's character at its index, and the resulting UID passes \<open>IsValid\<close>.
\<close>

theorem NewUID_valid:
  "\<exists>mem'. NewUID mem (Some p) rnd1 rnd2 rnd3 = Inr mem'
      \<and> list_all in_bounds (NewUID_assignments rnd1 rnd2 rnd3)
      \<and> map fst (NewUID_assignments rnd1 rnd2 rnd3) = [0 ..< 16]
      \<and> load_UID mem' p
          = map (\<lambda>ki. randChars ! unat (snd ki)) (NewUID_assignments rnd1 rnd2 rnd3)
      \<and> IsValid (load_UID mem' p)"
proof -
  let ?kis = "NewUID_assignments rnd1 rnd2 rnd3"
  let ?mem' = "fold (written p) ?kis mem"
  have b: "list_all in_bounds ?kis" by (rule assignments_in_bounds)
  have r: "NewUID mem (Some p) rnd1 rnd2 rnd3 = Inr ?mem'"
    by (simp add: run_assignments_ok [OF b])
  have l: "load_UID ?mem' p = map (\<lambda>ki. randChars ! unat (snd ki)) ?kis"
    by (rule load_after)
  have f: "map fst ?kis = [0 ..< 16]"
    by (simp add: NewUID_assignments_def upt_rec)
  have "length (load_UID ?mem' p) = 16" by (simp add: load_UID_def)
  then have "IsValid (load_UID ?mem' p)"
    using chars_valid [OF b] by (simp add: IsValid_list_all l)
  with r b l f show ?thesis by blast
qed

text \<open>
  The theorem at the random values \<open>0xFFFFFFFF\<close>, \<open>0\<close> and \<open>0x40000041\<close>, on a UID at
  address 8: the identifier is \<open>-----aaaaabbaaat\<close>.
\<close>

theorem NewUID_valid_witness:
  "\<exists>mem'. NewUID (\<lambda>a. 0) (Some 8) 0xFFFFFFFF 0 0x40000041 = Inr mem'
      \<and> load_UID mem' 8 = map of_char ''-----aaaaabbaaat''
      \<and> IsValid (load_UID mem' 8)"
  using NewUID_valid [of "\<lambda>a. 0" 8 "0xFFFFFFFF" 0 "0x40000041"]
  by (auto simp add: NewUID_assignments_def randChars_def)

text \<open>
  Claim C10. \<open>UIDFromString s\<close> is nil exactly when \<open>s\<close> is shorter than 16 bytes.
  For a string of at least 16 bytes it is a non-nil pointer, and the string that
  \<open>ToString\<close> makes of it has the first 16 bytes of \<open>s\<close> as its bytes.
\<close>

theorem UIDFromString_roundtrip:
  "(UIDFromString s = None \<longleftrightarrow> str_len s < 16) \<and>
   (16 \<le> str_len s \<longrightarrow>
      (\<exists>p t. UIDFromString s = Some p \<and> ToString (Some p) = Inr t
         \<and> bytes_of mem t = take 16 (bytes_of mem s)))"
  by (simp add: UIDFromString_def bytes_of_def take_map)

theorem UIDFromString_roundtrip_witness:
  "16 \<le> str_len \<lparr>str_data = 100, str_len = 20\<rparr> \<and>
   (\<exists>p t. UIDFromString \<lparr>str_data = 100, str_len = 20\<rparr> = Some p
      \<and> ToString (Some p) = Inr t
      \<and> bytes_of of_nat t = take 16 (bytes_of of_nat \<lparr>str_data = 100, str_len = 20\<rparr>))"
  using UIDFromString_roundtrip [of "\<lparr>str_data = 100, str_len = 20\<rparr>" of_nat]
  by simp

section \<open>JSON deserialization wrappers: the contract\<close>

text \<open>
  Claim C8. Both wrappers read the reader to its end and pass all the bytes read to the
  deserializer. When the reading fails they return a nil pointer and the reader's error,
  and the deserializer is not reached (the variable behind \<open>UnmarshalPointer\<close>'s
  argument keeps its value). When the deserializer fails they return a nil pointer and
  its error. Otherwise they return no error and a pointer at the value the deserializer
  produced: \<open>Unmarshal\<close> from the zero value of the type, \<open>UnmarshalPointer\<close> in the
  variable it was given. In every case exactly one of the pointer and the error is nil.
\<close>

theorem Unmarshal_contract:
  "(failure rc = Some e \<longrightarrow>
      Unmarshal zero lib rc = (None, Some e)
      \<and> UnmarshalPointer lib (Some v) rc = ((None, Some e), Some v))
   \<and> (failure rc = None \<and> unmarshal lib (concat (chunks rc)) zero = (Some e, r) \<longrightarrow>
        Unmarshal zero lib rc = (None, Some e))
   \<and> (failure rc = None \<and> unmarshal lib (concat (chunks rc)) zero = (None, r) \<longrightarrow>
        Unmarshal zero lib rc = (Some r, None))
   \<and> (failure rc = None \<and> unmarshal lib (concat (chunks rc)) v = (Some e, r) \<longrightarrow>
        UnmarshalPointer lib (Some v) rc = ((None, Some e), Some r))
   \<and> (failure rc = None \<and> unmarshal lib (concat (chunks rc)) v = (None, r) \<longrightarrow>
        UnmarshalPointer lib (Some v) rc = ((Some r, None), Some r))
   \<and> ((fst (Unmarshal zero lib rc) = None) = (snd (Unmarshal zero lib rc) \<noteq> None))
   \<and> ((fst (fst (UnmarshalPointer lib (Some v) rc)) = None)
         = (snd (fst (UnmarshalPointer lib (Some v) rc)) \<noteq> None))"
proof -
  have c1: "failure rc = Some e \<longrightarrow>
      Unmarshal zero lib rc = (None, Some e)
      \<and> UnmarshalPointer lib (Some v) rc = ((None, Some e), Some v)"
    by (simp add: Unmarshal_def UnmarshalPointer_def ReadAll_def)
  have c2: "failure rc = None \<and> unmarshal lib (concat (chunks rc)) zero = (Some e, r) \<longrightarrow>
        Unmarshal zero lib rc = (None, Some e)"
    by (simp add: Unmarshal_def ReadAll_def)
  have c3: "failure rc = None \<and> unmarshal lib (concat (chunks rc)) zero = (None, r) \<longrightarrow>
        Unmarshal zero lib rc = (Some r, None)"
    by (simp add: Unmarshal_def ReadAll_def)
  have c4: "failure rc = None \<and> unmarshal lib (concat (chunks rc)) v = (Some e, r) \<longrightarrow>
        UnmarshalPointer lib (Some v) rc = ((None, Some e), Some r)"
    by (simp add: UnmarshalPointer_def ReadAll_def)
  have c5: "failure rc = None \<and> unmarshal lib (concat (chunks rc)) v = (None, r) \<longrightarrow>
        UnmarshalPointer lib (Some v) rc = ((Some r, None), Some r)"
    by (simp add: UnmarshalPointer_def ReadAll_def)
  have c6: "(fst (Unmarshal zero lib rc) = None) = (snd (Unmarshal zero lib rc) \<noteq> None)"
    by (simp add: Unmarshal_def ReadAll_def split: option.splits prod.splits)
  have c7: "(fst (fst (UnmarshalPointer lib (Some v) rc)) = None)
         = (snd (fst (UnmarshalPointer lib (Some v) rc)) \<noteq> None)"
    by (simp add: UnmarshalPointer_def ReadAll_def split: option.splits prod.splits)
  show ?thesis by (intro conjI) (fact c1 c2 c3 c4 c5 c6 c7)+
qed

text \<open>
  On a reader that fails after two chunks, on an empty reader and on a reader of two
  chunks, with a deserializer that refuses empty input.
\<close>

theorem Unmarshal_contract_witness:
  "Unmarshal [] raw_lib \<lparr>chunks = [[123], [125]], failure = Some ''timeout''\<rparr>
      = (None, Some ''timeout'')
   \<and> UnmarshalPointer raw_lib (Some [1]) \<lparr>chunks = [[123], [125]], failure = Some ''timeout''\<rparr>
      = ((None, Some ''timeout''), Some [1])
   \<and> Unmarshal [] raw_lib \<lparr>chunks = [], failure = None\<rparr>
      = (None, Some ''unexpected end of JSON input'')
   \<and> UnmarshalPointer raw_lib (Some [1]) \<lparr>chunks = [], failure = None\<rparr>
      = ((None, Some ''unexpected end of JSON input''), Some [1])
   \<and> Unmarshal [] raw_lib \<lparr>chunks = [[123], [125]], failure = None\<rparr>
      = (Some [123, 125], None)
   \<and> UnmarshalPointer raw_lib (Some [1]) \<lparr>chunks = [[123], [125]], failure = None\<rparr>
      = ((Some [123, 125], None), Some [123, 125])"
  using
    Unmarshal_contract [of "\<lparr>chunks = [[123], [125]], failure = Some ''timeout''\<rparr>"
      "''timeout''" "[]" raw_lib "[1]"]
    Unmarshal_contract [of "\<lparr>chunks = [], failure = None\<rparr>"
      "''unexpected end of JSON input''" "[]" raw_lib "[1]" "[]"]
    Unmarshal_contract [of "\<lparr>chunks = [], failure = None\<rparr>"
      "''unexpected end of JSON input''" "[]" raw_lib "[1]" "[1]"]
    Unmarshal_contract [of "\<lparr>chunks = [[123], [125]], failure = None\<rparr>"
      _ "[]" raw_lib "[1]" "[123, 125]"]
  by (simp add: raw_lib_def)

section \<open>The worker pool: invariants of every interleaving\<close>

lemma in_callback_update:
  "i < length gs \<Longrightarrow>
   mset (concat (map in_callback (gs[i := g]))) + mset (in_callback (gs ! i))
     = mset (concat (map in_callback gs)) + mset (in_callback g)"
proof (induction gs arbitrary: i)
  case Nil
  then show ?case by simp
next
  case (Cons a gs)
  then show ?case by (cases i) (simp_all add: ac_simps)
qed

lemma busy_update:
  "i < length gs \<Longrightarrow>
   length (filter busy (gs[i := g])) + (if busy (gs ! i) then 1 else 0)
     = length (filter busy gs) + (if busy g then 1 else 0)"
proof (induction gs arbitrary: i)
  case Nil
  then show ?case by simp
next
  case (Cons a gs)
  show ?case
  proof (cases i)
    case 0
    then show ?thesis by simp
  next
    case (Suc j)
    then have "j < length gs" using Cons.prems by simp
    from Cons.IH [OF this] show ?thesis using Suc by simp
  qed
qed

lemma inv_CallFeed: "pool_inv s \<Longrightarrow> step (CallFeed x) s = Next s' \<Longrightarrow> pool_inv s'"
  by (auto simp add: pool_inv_def Feed_add_def in_flight_def pending_def split: option.splits)

lemma inv_Send: "pool_inv s \<Longrightarrow> step Send s = Next s' \<Longrightarrow> pool_inv s'"
  by (auto simp add: pool_inv_def Feed_send_def in_flight_def pending_def Let_def
        split: option.splits if_splits)

lemma inv_Handoff: "pool_inv s \<Longrightarrow> step (Handoff i) s = Next s' \<Longrightarrow> pool_inv s'"
  using in_callback_update [of i "goroutines s"] busy_update [of i "goroutines s"]
  by (auto simp add: pool_inv_def Feed_handoff_def in_flight_def pending_def Let_def
        split: option.splits if_splits)

lemma inv_Receive: "pool_inv s \<Longrightarrow> step (Receive i) s = Next s' \<Longrightarrow> pool_inv s'"
  using in_callback_update [of i "goroutines s"] busy_update [of i "goroutines s"]
  by (auto simp add: pool_inv_def worker_receive_def in_flight_def pending_def Let_def
        split: option.splits if_splits list.splits)

lemma inv_Return: "pool_inv s \<Longrightarrow> step (Return i) s = Next s' \<Longrightarrow> pool_inv s'"
  using in_callback_update [of i "goroutines s" Returned] busy_update [of i "goroutines s" Returned]
  by (auto simp add: pool_inv_def worker_return_def in_flight_def pending_def Let_def
        split: option.splits if_splits worker.splits)

lemma inv_Decrement:
  assumes "pool_inv s" and "step (Decrement i) s = Next s'"
  shows "pool_inv s'"
proof -
  let ?gs = "goroutines s"
  from assms(2) have i: "i < length ?gs" and r: "?gs ! i = Returned"
    and s': "s' = s\<lparr>tm := (tm s)\<lparr>counter := counter (tm s) - 1\<rparr>,
                      goroutines := ?gs[i := Receiving]\<rparr>"
    by (auto simp add: worker_decrement_def split: if_splits)
  have b: "length (filter busy ?gs) = Suc (length (filter busy (?gs[i := Receiving])))"
    using busy_update [OF i, of Receiving] r by simp
  have c: "mset (concat (map in_callback (?gs[i := Receiving])))
             = mset (concat (map in_callback ?gs))"
    using in_callback_update [OF i, of Receiving] r by simp
  have f: "in_flight s = Suc (in_flight s')"
    by (simp add: in_flight_def s' b)
  have "counter (tm s') = of_nat (in_flight s) - 1"
    using assms(1) by (simp add: pool_inv_def s')
  also have "\<dots> = of_nat (in_flight s')" by (simp add: f)
  finally have "counter (tm s') = of_nat (in_flight s')" .
  moreover have "fed s' = dequeued s' @ buf (channel (tm s')) @ pending (feeding s')"
    using assms(1) by (simp add: pool_inv_def s')
  moreover have "mset (dequeued s')
      = mset (completed s') + mset (concat (map in_callback (goroutines s')))"
    using assms(1) c by (simp add: pool_inv_def s')
  moreover have "length (buf (channel (tm s'))) \<le> cap (channel (tm s'))"
    using assms(1) by (simp add: pool_inv_def s')
  ultimately show ?thesis by (simp add: pool_inv_def)
qed

lemma inv_Exit: "pool_inv s \<Longrightarrow> step (Exit i) s = Next s' \<Longrightarrow> pool_inv s'"
  using in_callback_update [of i "goroutines s" Exited] busy_update [of i "goroutines s" Exited]
  by (auto simp add: pool_inv_def worker_exit_def in_flight_def pending_def Let_def
        split: option.splits if_splits worker.splits)

lemma inv_CallStop: "pool_inv s \<Longrightarrow> step CallStop s = Next s' \<Longrightarrow> pool_inv s'"
  by (auto simp add: pool_inv_def Stop_def close_chan_def in_flight_def 
        split: option.splits if_splits sum.splits)


lemma step_inv:
  assumes "pool_inv s" and "step a s = Next s'"
  shows "pool_inv s'"
proof (cases a)
  case (CallFeed x)
  from assms(2) have "step (CallFeed x) s = Next s'" unfolding CallFeed .
  with assms(1) show ?thesis by (rule inv_CallFeed)
next
  case Send
  from assms(2) have "step Send s = Next s'" unfolding Send .
  with assms(1) show ?thesis by (rule inv_Send)
next
  case (Handoff i)
  from assms(2) have "step (Handoff i) s = Next s'" unfolding Handoff .
  with assms(1) show ?thesis by (rule inv_Handoff)
next
  case (Receive i)
  from assms(2) have "step (Receive i) s = Next s'" unfolding Receive .
  with assms(1) show ?thesis by (rule inv_Receive)
next
  case (Return i)
  from assms(2) have "step (Return i) s = Next s'" unfolding Return .
  with assms(1) show ?thesis by (rule inv_Return)
next
  case (Decrement i)
  from assms(2) have "step (Decrement i) s = Next s'" unfolding Decrement .
  with assms(1) show ?thesis by (rule inv_Decrement)
next
  case (Exit i)
  from assms(2) have "step (Exit i) s = Next s'" unfolding Exit .
  with assms(1) show ?thesis by (rule inv_Exit)
next
  case CallIsDone
  from assms(2) have "s' = s" unfolding CallIsDone by simp
  with assms(1) show ?thesis by simp
next
  case CallStop
  from assms(2) have "step CallStop s = Next s'" unfolding CallStop .
  with assms(1) show ?thesis by (rule inv_CallStop)
qed

lemma run_inv: "pool_inv s \<Longrightarrow> run sched s = Next s' \<Longrightarrow> pool_inv s'"
proof (induction sched arbitrary: s)
  case Nil
  then show ?case by simp
next
  case (Cons a sched)
  from Cons.prems(2) obtain s1 where a: "step a s = Next s1" and r: "run sched s1 = Next s'"
    by (auto split: outcome.splits)
  from Cons.prems(1) a have "pool_inv s1" by (rule step_inv)
  then show ?case using r by (rule Cons.IH)
qed

lemma step_size: "step a s = Next s' \<Longrightarrow> pool_size s' = pool_size s"
proof (cases a)
  case (CallFeed x)
  assume "step a s = Next s'"
  then show ?thesis using CallFeed
    by (auto simp add: pool_size_def Feed_add_def split: option.splits)
next
  case Send
  assume "step a s = Next s'"
  then show ?thesis using Send
    by (auto simp add: pool_size_def Feed_send_def Let_def split: option.splits if_splits)
next
  case (Handoff i)
  assume "step a s = Next s'"
  then show ?thesis using Handoff
    by (auto simp add: pool_size_def Feed_handoff_def Let_def split: option.splits if_splits)
next
  case (Receive i)
  assume "step a s = Next s'"
  then show ?thesis using Receive
    by (auto simp add: pool_size_def worker_receive_def Let_def split: list.splits if_splits)
next
  case (Return i)
  assume "step a s = Next s'"
  then show ?thesis using Return
    by (auto simp add: pool_size_def worker_return_def
          split: option.splits if_splits worker.splits)
next
  case (Decrement i)
  assume "step a s = Next s'"
  then show ?thesis using Decrement
    by (auto simp add: pool_size_def worker_decrement_def split: if_splits)
next
  case (Exit i)
  assume "step a s = Next s'"
  then show ?thesis using Exit
    by (auto simp add: pool_size_def worker_exit_def Let_def split: if_splits)
next
  case CallIsDone
  assume "step a s = Next s'"
  then show ?thesis using CallIsDone by simp
next
  case CallStop
  assume "step a s = Next s'"
  then show ?thesis using CallStop
    by (auto simp add: pool_size_def Stop_def close_chan_def split: sum.splits if_splits)
qed

lemma run_size: "run sched s = Next s' \<Longrightarrow> pool_size s' = pool_size s"
proof (induction sched arbitrary: s)
  case Nil
  then show ?case by simp
next
  case (Cons a sched)
  from Cons.prems obtain s1 where a: "step a s = Next s1" and r: "run sched s1 = Next s'"
    by (auto split: outcome.splits)
  from Cons.IH [OF r] step_size [OF a] show ?case by simp
qed

lemma sint_succ: "(i::go_int) <s n \<Longrightarrow> sint (i + 1) = sint i + 1"
proof -
  assume "i <s n"
  then have lt: "sint i < sint n" by (simp add: word_sless_alt)
  have "sint n < 2 ^ 63" using sint_lt [of n] by simp
  moreover have "- (2 ^ 63) \<le> sint i" using sint_ge [of i] by simp
  ultimately have "signed_take_bit 63 (sint i + 1) = sint i + 1"
    using lt by (intro signed_take_bit_int_eq_self) auto
  then show ?thesis by (simp add: sint_word_add)
qed

lemma Start_loop_eq:
  "Start_loop i n gs = gs @ replicate (nat (sint n - sint i)) Receiving"
proof (induction i n gs rule: Start_loop.induct)
  case (1 i n gs)
  show ?case
  proof (cases "i <s n")
    case True
    then have "nat (sint n - sint i) = Suc (nat (sint n - sint (i + 1)))"
      by (simp add: sint_succ word_sless_alt)
    then show ?thesis
      using True 1 by (subst Start_loop.simps) (simp add: replicate_app_Cons_same)
  next
    case False
    then show ?thesis by (subst Start_loop.simps) (simp add: word_sless_alt)
  qed
qed

lemma Start_goroutines:
  "goroutines (Start (boot t w)) = replicate (nat (sint (workers t))) Receiving"
  by (simp add: Start_def boot_def Start_loop_eq)

lemma NewThreadManager_Inr:
  "NewThreadManager limit n cb = Inr t \<Longrightarrow>
   t = \<lparr>channel = \<lparr>buf = [], cap = nat (sint n), closed = False\<rparr>, workers = n,
        callback = cb, counter = 0\<rparr> \<and> 0 \<le> sint n"
  by (auto simp add: NewThreadManager_def makechan_def word_sless_alt split: if_splits)

lemma no_busy_replicate: "filter busy (replicate k Receiving) = []"
  by (induction k) simp_all

lemma no_callback_replicate: "concat (map in_callback (replicate k Receiving)) = []"
  by (induction k) simp_all

lemma started_inv:
  assumes "NewThreadManager limit n cb = Inr t"
  shows "pool_inv (Start (boot t w))"
proof -
  from NewThreadManager_Inr [OF assms]
  have t: "t = \<lparr>channel = \<lparr>buf = [], cap = nat (sint n), closed = False\<rparr>, workers = n,
        callback = cb, counter = 0\<rparr>" by simp
  have g: "goroutines (Start (boot t w)) = replicate (nat (sint n)) Receiving"
    by (simp add: Start_goroutines t)
  have r: "tm (Start (boot t w)) = t" "feeding (Start (boot t w)) = None"
    "fed (Start (boot t w)) = []" "dequeued (Start (boot t w)) = []"
    "completed (Start (boot t w)) = []"
    by (simp_all add: Start_def boot_def)
  have f: "in_flight (Start (boot t w)) = 0"
    by (simp add: in_flight_def g r no_busy_replicate) (simp add: t pending_def)
  show "pool_inv (Start (boot t w))"
    unfolding pool_inv_def f g r no_callback_replicate
    by (simp add: t pending_def)
qed

lemma started_size:
  assumes "NewThreadManager limit n cb = Inr t"
  shows "pool_size (Start (boot t w)) < 18446744073709551615"
proof -
  from NewThreadManager_Inr [OF assms]
  have t: "t = \<lparr>channel = \<lparr>buf = [], cap = nat (sint n), closed = False\<rparr>, workers = n,
        callback = cb, counter = 0\<rparr>" by simp
  have g: "length (goroutines (Start (boot t w))) = nat (sint n)"
    by (simp add: Start_goroutines t)
  have c: "cap (channel (tm (Start (boot t w)))) = nat (sint n)"
    by (simp add: Start_def boot_def t)
  have "sint n < 9223372036854775808" using sint_lt [of n] by simp
  then have "nat (sint n) < 9223372036854775808" by linarith
  then have "nat (sint n) + nat (sint n) < 18446744073709551615" by linarith
  then show ?thesis unfolding pool_size_def g c .
qed

lemma two64: "(2::nat) ^ LENGTH(64) = 18446744073709551616"
  by simp

lemma counter_zero_iff:
  "(k::nat) < 18446744073709551616 \<Longrightarrow> (of_nat k :: int64) = 0 \<longleftrightarrow> k = 0"
proof (cases "k = 0")
  case True
  then show ?thesis by simp
next
  case False
  assume "k < 18446744073709551616"
  then have "k < 2 ^ LENGTH(64)" by (simp only: two64)
  moreover have "0 < k" using False by simp
  ultimately have "(of_nat k :: int64) \<noteq> 0" by (rule of_nat_neq_0 [rotated])
  then show ?thesis using False by simp
qed

lemma in_flight_le: "pool_inv s \<Longrightarrow> in_flight s \<le> Suc (pool_size s)"
proof -
  assume "pool_inv s"
  then have "length (buf (channel (tm s))) \<le> cap (channel (tm s))"
    by (simp add: pool_inv_def)
  moreover have "length (filter busy (goroutines s)) \<le> length (goroutines s)"
    by (rule length_filter_le)
  moreover have "length (pending (feeding s)) \<le> 1"
    by (simp add: pending_def split: option.splits)
  ultimately show ?thesis unfolding in_flight_def pool_size_def by linarith
qed

lemma idle_no_callback: "filter busy gs = [] \<Longrightarrow> concat (map in_callback gs) = []"
proof (induction gs)
  case Nil
  then show ?case by simp
next
  case (Cons g gs)
  then show ?case by (cases g) (simp_all split: if_splits)
qed

lemma in_flight_0: "in_flight s = 0 \<longleftrightarrow> quiescent s"
  by (auto simp add: in_flight_def quiescent_def pending_def split: option.splits)

lemma quiescent_logs:
  assumes "pool_inv s" and "quiescent s"
  shows "dequeued s = fed s" and "mset (completed s) = mset (fed s)"
proof -
  from assms(2) have q: "feeding s = None" "buf (channel (tm s)) = []"
    "filter busy (goroutines s) = []"
    by (simp_all add: quiescent_def)
  from assms(1) q show d: "dequeued s = fed s"
    by (simp add: pool_inv_def pending_def)
  from assms(1) idle_no_callback [OF q(3)] have "mset (dequeued s) = mset (completed s)"
    by (simp add: pool_inv_def)
  with d show "mset (completed s) = mset (fed s)" by simp
qed

text \<open>Every state of every interleaving of a started pool.\<close>

lemma reachable_inv:
  assumes "NewThreadManager limit n cb = Inr t" and "run sched (Start (boot t w)) = Next s"
  shows "pool_inv s" and "in_flight s < 18446744073709551616"
proof -
  show i: "pool_inv s"
    using started_inv [OF assms(1)] assms(2) by (rule run_inv)
  have "pool_size s < 18446744073709551615"
    using started_size [OF assms(1), of w] run_size [OF assms(2)] by simp
  with in_flight_le [OF i] show "in_flight s < 18446744073709551616" by linarith
qed

subsection \<open>The test scenario, evaluated\<close>


lemmas step_defs = Feed_add_def Feed_send_def Feed_handoff_def worker_receive_def
  worker_return_def worker_decrement_def worker_exit_def Stop_def close_chan_def

lemma test_tm_new: "NewThreadManager 1024 2 test_callback = Inr test_tm"
  by (simp add: NewThreadManager_def makechan_def word_sless_alt test_tm_def)

lemma test_tm_started:
  "Start (boot test_tm []) =
     \<lparr>tm = test_tm, goroutines = [Receiving, Receiving], feeding = None, world = [],
      fed = [], dequeued = [], completed = []\<rparr>"
  by (simp add: Start_def boot_def Start_loop_eq numeral_2_eq_2 test_tm_def)

lemma zero_tm_new: "NewThreadManager 1024 0 test_callback = Inr zero_tm"
  by (simp add: NewThreadManager_def makechan_def word_sless_alt zero_tm_def)

lemma zero_tm_started:
  "Start (boot zero_tm []) =
     \<lparr>tm = zero_tm, goroutines = [], feeding = None, world = [],
      fed = [], dequeued = [], completed = []\<rparr>"
  by (simp add: Start_def boot_def Start_loop_eq zero_tm_def)

subsection \<open>Where the counter changes\<close>


lemma returned_only_by_Return:
  assumes "step a s0 = Next s1" and "i < length (goroutines s1)"
    and "goroutines s1 ! i = Returned" and "goroutines s0 ! i \<noteq> Returned"
  shows "a = Return i"
proof (cases a)
  case (CallFeed x)
  with assms show ?thesis by (auto simp add: Feed_add_def split: option.splits)
next
  case Send
  with assms show ?thesis by (auto simp add: Feed_send_def Let_def split: option.splits if_splits)
next
  case (Handoff j)
  with assms show ?thesis
    by (auto simp add: Feed_handoff_def Let_def nth_list_update split: option.splits if_splits)
next
  case (Receive j)
  with assms show ?thesis
    by (auto simp add: worker_receive_def Let_def nth_list_update split: list.splits if_splits)
next
  case (Return j)
  with assms show ?thesis
    by (auto simp add: worker_return_def nth_list_update
          split: option.splits if_splits worker.splits)
next
  case (Decrement j)
  with assms show ?thesis
    by (auto simp add: worker_decrement_def nth_list_update split: if_splits)
next
  case (Exit j)
  with assms show ?thesis
    by (auto simp add: worker_exit_def Let_def nth_list_update split: if_splits)
next
  case CallIsDone
  with assms show ?thesis by simp
next
  case CallStop
  with assms show ?thesis
    by (auto simp add: Stop_def close_chan_def split: sum.splits if_splits)
qed

lemma CallFeed_effect:
  "step (CallFeed x) s0 = Next s1 \<Longrightarrow>
   counter (tm s1) = counter (tm s0) + 1 \<and> feeding s1 = Some x
     \<and> channel (tm s1) = channel (tm s0) \<and> dequeued s1 = dequeued s0"
  by (auto simp add: Feed_add_def split: option.splits)

lemma Decrement_effect:
  "step (Decrement i) s0 = Next s1 \<Longrightarrow>
   goroutines s0 ! i = Returned \<and> counter (tm s1) = counter (tm s0) - 1"
  by (auto simp add: worker_decrement_def split: if_splits)

lemma unfinished_not_done:
  assumes "NewThreadManager limit n cb = Inr t"
    and "run sched (Start (boot t w)) = Next s"
    and "mset (completed s) \<noteq> mset (fed s)"
  shows "\<not> IsDone (tm s)"
proof
  assume d: "IsDone (tm s)"
  have i: "pool_inv s" and b: "in_flight s < 18446744073709551616"
    using assms(1,2) by (rule reachable_inv)+
  from d i have "(of_nat (in_flight s) :: int64) = 0" by (simp add: IsDone_def pool_inv_def)
  then have "in_flight s = 0" using counter_zero_iff [OF b] by simp
  then have "quiescent s" by (simp add: in_flight_0)
  from quiescent_logs(2) [OF i this] assms(3) show False by simp
qed

subsection \<open>A closed channel stays closed\<close>


lemma step_closed:
  assumes "closed (channel (tm s))" and "step a s = Next s'"
  shows "closed (channel (tm s'))"
proof (cases a)
  case (CallFeed x)
  with assms show ?thesis by (auto simp add: Feed_add_def split: option.splits)
next
  case Send
  with assms show ?thesis by (auto simp add: Feed_send_def Let_def split: option.splits if_splits)
next
  case (Handoff j)
  with assms show ?thesis
    by (auto simp add: Feed_handoff_def Let_def split: option.splits if_splits)
next
  case (Receive j)
  with assms show ?thesis
    by (auto simp add: worker_receive_def Let_def split: list.splits if_splits)
next
  case (Return j)
  with assms show ?thesis
    by (auto simp add: worker_return_def split: option.splits if_splits worker.splits)
next
  case (Decrement j)
  with assms show ?thesis by (auto simp add: worker_decrement_def split: if_splits)
next
  case (Exit j)
  with assms show ?thesis by (auto simp add: worker_exit_def Let_def split: if_splits)
next
  case CallIsDone
  with assms show ?thesis by simp
next
  case CallStop
  with assms show ?thesis
    by (auto simp add: Stop_def close_chan_def split: sum.splits if_splits)
qed

lemma run_closed:
  "closed (channel (tm s)) \<Longrightarrow> run sched s = Next s' \<Longrightarrow> closed (channel (tm s'))"
proof (induction sched arbitrary: s)
  case Nil
  then show ?case by simp
next
  case (Cons a sched)
  from Cons.prems(2) obtain s1 where a: "step a s = Next s1" and r: "run sched s1 = Next s'"
    by (auto split: outcome.splits)
  from Cons.prems(1) a have "closed (channel (tm s1))" by (rule step_closed)
  then show ?case using r by (rule Cons.IH)
qed

lemma Stop_closes: "Stop t = Inr t1 \<Longrightarrow> closed (channel t1)"
  by (auto simp add: Stop_def close_chan_def split: if_splits)

lemma Stop_closed: "closed (channel t) \<Longrightarrow> Stop t = Inl CloseOfClosedChannel"
  by (simp add: Stop_def close_chan_def)

subsection \<open>A pool constructed with zero workers\<close>


lemma step_no_workers:
  assumes "no_workers s" and "step a s = Next s'"
  shows "no_workers s'"
proof (cases a)
  case (CallFeed x)
  with assms show ?thesis by (auto simp add: no_workers_def Feed_add_def split: option.splits)
next
  case Send
  with assms show ?thesis
    by (auto simp add: no_workers_def Feed_send_def Let_def split: option.splits if_splits)
next
  case (Handoff j)
  with assms show ?thesis
    by (auto simp add: no_workers_def Feed_handoff_def Let_def split: option.splits if_splits)
next
  case (Receive j)
  with assms show ?thesis
    by (auto simp add: no_workers_def worker_receive_def Let_def split: list.splits if_splits)
next
  case (Return j)
  with assms show ?thesis
    by (auto simp add: no_workers_def worker_return_def
          split: option.splits if_splits worker.splits)
next
  case (Decrement j)
  with assms show ?thesis by (auto simp add: no_workers_def worker_decrement_def split: if_splits)
next
  case (Exit j)
  with assms show ?thesis by (auto simp add: no_workers_def worker_exit_def Let_def split: if_splits)
next
  case CallIsDone
  with assms show ?thesis by simp
next
  case CallStop
  with assms show ?thesis
    by (auto simp add: no_workers_def Stop_def close_chan_def split: sum.splits if_splits)
qed

lemma run_no_workers:
  "no_workers s \<Longrightarrow> run sched s = Next s' \<Longrightarrow> no_workers s'"
proof (induction sched arbitrary: s)
  case Nil
  then show ?case by simp
next
  case (Cons a sched)
  from Cons.prems(2) obtain s1 where a: "step a s = Next s1" and r: "run sched s1 = Next s'"
    by (auto split: outcome.splits)
  from Cons.prems(1) a have "no_workers s1" by (rule step_no_workers)
  then show ?case using r by (rule Cons.IH)
qed

lemma no_workers_stuck:
  assumes "no_workers s"
  shows "step Send s \<noteq> Next s'" and "step (Handoff i) s \<noteq> Next s'"
  using assms
  by (auto simp add: no_workers_def Feed_send_def Feed_handoff_def Let_def
        split: option.splits)

lemma negative_workers_panic: "n <s 0 \<Longrightarrow> NewThreadManager limit n cb = Inl MakechanSizeOutOfRange"
  by (simp add: NewThreadManager_def makechan_def)

lemma zero_workers_accepted:
  "0 \<le>s limit \<Longrightarrow> NewThreadManager limit 0 cb =
     Inr \<lparr>channel = \<lparr>buf = [], cap = 0, closed = False\<rparr>, workers = 0,
          callback = cb, counter = 0\<rparr>"
  by (simp add: NewThreadManager_def makechan_def word_sless_alt word_sle_eq)

lemma zero_workers_started:
  assumes "NewThreadManager limit 0 cb = Inr t"
  shows "no_workers (Start (boot t w))"
proof -
  from NewThreadManager_Inr [OF assms]
  have t: "t = \<lparr>channel = \<lparr>buf = [], cap = 0, closed = False\<rparr>, workers = 0,
        callback = cb, counter = 0\<rparr>" by simp
  have g: "goroutines (Start (boot t w)) = []"
    by (simp add: Start_goroutines t)
  show ?thesis
    unfolding no_workers_def g by (simp add: Start_def boot_def t)
qed

subsection \<open>Every list of items can be completed\<close>


lemma run_append:
  "run (sched @ sched') s =
     (case run sched s of Next s' \<Rightarrow> run sched' s' | Blocked \<Rightarrow> Blocked | Panic e \<Rightarrow> Panic e)"
  by (induction sched arbitrary: s) (simp_all split: outcome.splits)

lemma one_item:
  assumes "idle s" and "callback (tm s) x (world s) = Some w'"
  shows "\<exists>s'. run [CallFeed x, Send, Receive 0, Return 0, Decrement 0] s = Next s'
     \<and> idle s' \<and> fed s' = fed s @ [x] \<and> callback (tm s') = callback (tm s)"
proof -
  from assms(1) obtain gs where g: "goroutines s = Receiving # gs"
    by (cases "goroutines s") (simp_all add: idle_def)
  from assms(1) g have q: "feeding s = None" "buf (channel (tm s)) = []"
    "filter busy gs = []" "\<not> closed (channel (tm s))" "0 < cap (channel (tm s))"
    by (simp_all add: idle_def quiescent_def)
  show ?thesis
    by (simp add: step_defs g q assms(2) idle_def quiescent_def)
qed

lemma all_items:
  assumes "idle s" and "\<forall>x w. callback (tm s) x w \<noteq> None"
  shows "\<exists>sched s'. run sched s = Next s' \<and> idle s' \<and> fed s' = fed s @ xs"
  using assms
proof (induction xs arbitrary: s)
  case Nil
  have "run [] s = Next s" by simp
  with Nil.prems(1) show ?case by (metis append_Nil2)
next
  case (Cons x xs)
  from Cons.prems(2) obtain w' where "callback (tm s) x (world s) = Some w'" by blast
  from one_item [OF Cons.prems(1) this] obtain s1
    where r1: "run [CallFeed x, Send, Receive 0, Return 0, Decrement 0] s = Next s1"
      and i1: "idle s1" and f1: "fed s1 = fed s @ [x]"
      and c1: "callback (tm s1) = callback (tm s)"
    by blast
  from Cons.prems(2) c1 have "\<forall>x w. callback (tm s1) x w \<noteq> None" by simp
  from Cons.IH [OF i1 this] obtain sched s'
    where r: "run sched s1 = Next s'" and i: "idle s'" and f: "fed s' = fed s1 @ xs"
    by blast
  have "run ([CallFeed x, Send, Receive 0, Return 0, Decrement 0] @ sched) s = Next s'"
    unfolding run_append r1 using r by simp
  moreover have "fed s' = fed s @ x # xs" using f f1 by simp
  ultimately show ?case using i by blast
qed

lemma started_idle:
  assumes "NewThreadManager limit n cb = Inr t" and "0 <s n"
  shows "idle (Start (boot t w))"
proof -
  from NewThreadManager_Inr [OF assms(1)]
  have t: "t = \<lparr>channel = \<lparr>buf = [], cap = nat (sint n), closed = False\<rparr>, workers = n,
        callback = cb, counter = 0\<rparr>" by simp
  from assms(2) have p: "0 < nat (sint n)" by (simp add: word_sless_alt)
  then obtain k where k: "nat (sint n) = Suc k" by (cases "nat (sint n)") simp_all
  have g: "goroutines (Start (boot t w)) = replicate (nat (sint n)) Receiving"
    by (simp add: Start_goroutines t)
  have r: "tm (Start (boot t w)) = t" "feeding (Start (boot t w)) = None"
    by (simp_all add: Start_def boot_def)
  show ?thesis
    unfolding idle_def quiescent_def g r
    using p by (simp add: t no_busy_replicate k)
qed

text \<open>
  Every list of items can be fed to a started pool with at least one worker and a
  callback that does not panic, and there is an interleaving after which nothing is on
  its way.
\<close>

lemma completion_reachable:
  assumes "NewThreadManager limit n cb = Inr t" and "0 <s n"
    and "\<forall>x w. cb x w \<noteq> None"
  shows "\<exists>sched s. run sched (Start (boot t w)) = Next s \<and> quiescent s \<and> fed s = xs"
proof -
  have i: "idle (Start (boot t w))" using assms(1,2) by (rule started_idle)
  from NewThreadManager_Inr [OF assms(1)] have "callback t = cb" by simp
  then have c: "\<forall>x v. callback (tm (Start (boot t w))) x v \<noteq> None"
    using assms(3) by (simp add: Start_def boot_def)
  have "fed (Start (boot t w)) = []" by (simp add: Start_def boot_def)
  with all_items [OF i c, of xs] show ?thesis by (auto simp add: idle_def)
qed

subsection \<open>The callback has run once for each completed item\<close>


lemma run_callbacks_snoc:
  "run_callbacks cb (xs @ [x]) w =
     (case run_callbacks cb xs w of None \<Rightarrow> None | Some v \<Rightarrow> cb x v)"
  by (induction xs arbitrary: w) (simp_all split: option.splits)

lemma Return_effect:
  assumes "step (Return i) s0 = Next s1"
  shows "\<exists>x. goroutines s0 ! i = Calling x
     \<and> callback (tm s0) x (world s0) = Some (world s1)
     \<and> completed s1 = completed s0 @ [x]
     \<and> goroutines s1 ! i = Returned
     \<and> counter (tm s1) = counter (tm s0)"
  using assms
  by (auto simp add: worker_return_def split: if_splits worker.splits option.splits)

lemma step_world:
  assumes "step a s = Next s'"
    and "run_callbacks (callback (tm s)) (completed s) w = Some (world s)"
  shows "callback (tm s') = callback (tm s)
    \<and> run_callbacks (callback (tm s')) (completed s') w = Some (world s')"
proof (cases a)
  case (CallFeed x)
  with assms show ?thesis by (auto simp add: Feed_add_def split: option.splits)
next
  case Send
  with assms show ?thesis by (auto simp add: Feed_send_def Let_def split: option.splits if_splits)
next
  case (Handoff j)
  with assms show ?thesis
    by (auto simp add: Feed_handoff_def Let_def split: option.splits if_splits)
next
  case (Receive j)
  with assms show ?thesis
    by (auto simp add: worker_receive_def Let_def split: list.splits if_splits)
next
  case (Return j)
  from assms(1) have "step (Return j) s = Next s'" unfolding Return .
  from Return_effect [OF this] obtain x
    where c: "callback (tm s) x (world s) = Some (world s')"
      and l: "completed s' = completed s @ [x]"
    by blast
  have t: "callback (tm s') = callback (tm s)"
    using \<open>step (Return j) s = Next s'\<close>
    by (auto simp add: worker_return_def split: if_splits worker.splits option.splits)
  show ?thesis
    unfolding t l run_callbacks_snoc assms(2) using c by simp
next
  case (Decrement j)
  with assms show ?thesis by (auto simp add: worker_decrement_def split: if_splits)
next
  case (Exit j)
  with assms show ?thesis by (auto simp add: worker_exit_def Let_def split: if_splits)
next
  case CallIsDone
  with assms show ?thesis by simp
next
  case CallStop
  with assms show ?thesis
    by (auto simp add: Stop_def close_chan_def split: sum.splits if_splits)
qed

lemma run_world:
  "run sched s = Next s' \<Longrightarrow>
   run_callbacks (callback (tm s)) (completed s) w = Some (world s) \<Longrightarrow>
   callback (tm s') = callback (tm s)
     \<and> run_callbacks (callback (tm s')) (completed s') w = Some (world s')"
proof (induction sched arbitrary: s)
  case Nil
  then show ?case by simp
next
  case (Cons a sched)
  from Cons.prems(1) obtain s1 where a: "step a s = Next s1" and r: "run sched s1 = Next s'"
    by (auto split: outcome.splits)
  note sw = step_world [OF a Cons.prems(2)]
  have c1: "callback (tm s1) = callback (tm s)" by (rule sw [THEN conjunct1])
  have w1: "run_callbacks (callback (tm s1)) (completed s1) w = Some (world s1)"
    by (rule sw [THEN conjunct2])
  note ih = Cons.IH [OF r w1]
  have "callback (tm s') = callback (tm s)" using ih [THEN conjunct1] c1 by (rule trans)
  with ih [THEN conjunct2] show ?case by (rule conjI [rotated])
qed

lemma reachable_world:
  assumes "NewThreadManager limit n cb = Inr t" and "run sched (Start (boot t w)) = Next s"
  shows "run_callbacks cb (completed s) w = Some (world s)"
proof -
  from NewThreadManager_Inr [OF assms(1)] have c: "callback t = cb" by simp
  have s0: "callback (tm (Start (boot t w))) = cb" "completed (Start (boot t w)) = []"
    "world (Start (boot t w)) = w"
    using c by (simp_all add: Start_def boot_def)
  have "run_callbacks (callback (tm (Start (boot t w)))) (completed (Start (boot t w))) w
      = Some (world (Start (boot t w)))"
    unfolding s0 by simp
  note rw = run_world [OF assms(2) this]
  have "callback (tm s) = cb" using rw [THEN conjunct1] s0(1) by (rule trans)
  with rw [THEN conjunct2] show ?thesis by simp
qed

section \<open>The worker pool: the claims\<close>

text \<open>
  Claim C1. In every state of the pool, \<open>IsDone\<close> is true exactly when the counter is
  zero at the read. The call is one atomic load: it can take place in every state of the
  running pool and leaves that state as it is, so it suspends no goroutine.
\<close>

theorem IsDone_snapshot:
  "(IsDone t \<longleftrightarrow> counter t = 0) \<and> step CallIsDone s = Next s"
  by (simp add: IsDone_def)

theorem IsDone_snapshot_witness:
  "\<not> IsDone (test_tm\<lparr>counter := 2\<rparr>) \<and> IsDone test_tm
   \<and> step CallIsDone (Start (boot test_tm [])) = Next (Start (boot test_tm []))"
  using IsDone_snapshot [of "test_tm\<lparr>counter := 2\<rparr>" "Start (boot test_tm [])"]
    IsDone_snapshot [of test_tm "Start (boot test_tm [])"]
  by (simp add: test_tm_def IsDone_def)

text \<open>
  Claim C2. A pool is constructed and started, and items are fed to it; the caller and
  the workers interleave in any way. A worker has finished with an item when it has
  run its loop body for it: the callback has returned and the counter is decremented.
  Once all fed items are finished with (the caller is outside \<open>Feed\<close>, the buffer is
  empty, and every worker is at its receive or has left the loop), the workers have
  received exactly the fed items, in feeding order, each once; the items for which the
  callback has returned are exactly the fed items, each once; the state the callback
  works on is what calling the callback once on each of these items, in the order of
  the returns, makes of the initial state; and the counter is back at zero, so
  \<open>IsDone\<close> is true.
\<close>

theorem pool_completion:
  assumes "NewThreadManager limit n cb = Inr t"
    and "run sched (Start (boot t w)) = Next s"
    and "quiescent s"
  shows "dequeued s = fed s \<and> mset (completed s) = mset (fed s)
    \<and> run_callbacks cb (completed s) w = Some (world s)
    \<and> counter (tm s) = 0 \<and> IsDone (tm s)"
proof -
  have i: "pool_inv s" using assms(1,2) by (rule reachable_inv)
  have "in_flight s = 0" using assms(3) by (simp add: in_flight_0)
  then have "counter (tm s) = 0" using i by (simp add: pool_inv_def)
  then show ?thesis
    using quiescent_logs [OF i assms(3)] reachable_world [OF assms(1,2)]
    by (simp add: IsDone_def)
qed

text \<open>
  The scenario of the test: four items through two workers, finished out of order. The
  callback has recorded each item once.
\<close>

theorem pool_completion_witness:
  "\<exists>t s. NewThreadManager 1024 2 test_callback = Inr t
     \<and> run (test_schedule @ test_schedule_rest) (Start (boot t [])) = Next s
     \<and> quiescent s
     \<and> fed s = [''Foo'', ''Baar'', ''Baloo'', ''Golang'']
     \<and> completed s = [''Baar'', ''Foo'', ''Golang'', ''Baloo'']
     \<and> world s = [''Baar'', ''Foo'', ''Golang'', ''Baloo'']
     \<and> dequeued s = fed s \<and> mset (completed s) = mset (fed s)
     \<and> run_callbacks test_callback (completed s) [] = Some (world s)
     \<and> counter (tm s) = 0 \<and> IsDone (tm s)"
proof -
  have "\<exists>s. run (test_schedule @ test_schedule_rest) (Start (boot test_tm [])) = Next s
     \<and> quiescent s
     \<and> fed s = [''Foo'', ''Baar'', ''Baloo'', ''Golang'']
     \<and> completed s = [''Baar'', ''Foo'', ''Golang'', ''Baloo'']
     \<and> world s = [''Baar'', ''Foo'', ''Golang'', ''Baloo'']"
    unfolding test_tm_started
    by (simp add: test_schedule_def test_schedule_rest_def step_defs
          test_callback_def test_tm_def quiescent_def)
  then obtain s where r: "run (test_schedule @ test_schedule_rest) (Start (boot test_tm [])) = Next s"
    and q: "quiescent s" and f: "fed s = [''Foo'', ''Baar'', ''Baloo'', ''Golang'']"
    and c: "completed s = [''Baar'', ''Foo'', ''Golang'', ''Baloo'']"
    and w: "world s = [''Baar'', ''Foo'', ''Golang'', ''Baloo'']"
    by blast
  from pool_completion [OF test_tm_new r q] test_tm_new r q f c w show ?thesis by blast
qed

text \<open>
  Claim C3. Entering \<open>Feed x\<close> adds one to the counter and leaves the channel as it
  is: the item is enqueued by a later step. The return of a worker's callback is the
  callback run on the item the worker holds, in the state of the caller's that it works
  on; it records the item as completed and leaves the counter alone. A worker subtracts
  one only from the point after its callback has returned, and a worker comes to that
  point only by the return of its callback. In every state of every interleaving of a
  started pool, the state the callback works on is what calling the callback once on
  each completed item, in order, makes of the initial state; and in no such state in
  which the callback has not yet returned for every fed item is \<open>IsDone\<close> true.
\<close>

theorem IsDone_false_while_unfinished:
  "(step (CallFeed x) s0 = Next s1 \<longrightarrow>
      counter (tm s1) = counter (tm s0) + 1 \<and> feeding s1 = Some x
        \<and> channel (tm s1) = channel (tm s0) \<and> dequeued s1 = dequeued s0)
   \<and> (step (Return i) s0 = Next s1 \<longrightarrow>
        (\<exists>y. goroutines s0 ! i = Calling y
           \<and> callback (tm s0) y (world s0) = Some (world s1)
           \<and> completed s1 = completed s0 @ [y]
           \<and> goroutines s1 ! i = Returned
           \<and> counter (tm s1) = counter (tm s0)))
   \<and> (step (Decrement i) s0 = Next s1 \<longrightarrow>
        goroutines s0 ! i = Returned \<and> counter (tm s1) = counter (tm s0) - 1)
   \<and> (step a s0 = Next s1 \<and> i < length (goroutines s1) \<and> goroutines s1 ! i = Returned
        \<and> goroutines s0 ! i \<noteq> Returned \<longrightarrow> a = Return i)
   \<and> (NewThreadManager limit n cb = Inr t \<and> run sched (Start (boot t w)) = Next s \<longrightarrow>
        run_callbacks cb (completed s) w = Some (world s))
   \<and> (NewThreadManager limit n cb = Inr t \<and> run sched (Start (boot t w)) = Next s
        \<and> mset (completed s) \<noteq> mset (fed s) \<longrightarrow> \<not> IsDone (tm s))"
proof -
  have c1: "step (CallFeed x) s0 = Next s1 \<longrightarrow>
      counter (tm s1) = counter (tm s0) + 1 \<and> feeding s1 = Some x
        \<and> channel (tm s1) = channel (tm s0) \<and> dequeued s1 = dequeued s0"
    using CallFeed_effect [of x s0 s1] by (rule impI)
  have c2: "step (Return i) s0 = Next s1 \<longrightarrow>
        (\<exists>y. goroutines s0 ! i = Calling y
           \<and> callback (tm s0) y (world s0) = Some (world s1)
           \<and> completed s1 = completed s0 @ [y]
           \<and> goroutines s1 ! i = Returned
           \<and> counter (tm s1) = counter (tm s0))"
    using Return_effect [of i s0 s1] by (rule impI)
  have c3: "step (Decrement i) s0 = Next s1 \<longrightarrow>
        goroutines s0 ! i = Returned \<and> counter (tm s1) = counter (tm s0) - 1"
    using Decrement_effect [of i s0 s1] by (rule impI)
  have c4: "step a s0 = Next s1 \<and> i < length (goroutines s1) \<and> goroutines s1 ! i = Returned
        \<and> goroutines s0 ! i \<noteq> Returned \<longrightarrow> a = Return i"
    using returned_only_by_Return [of a s0 s1 i] by simp
  have c5: "NewThreadManager limit n cb = Inr t \<and> run sched (Start (boot t w)) = Next s \<longrightarrow>
        run_callbacks cb (completed s) w = Some (world s)"
    using reachable_world [of limit n cb t sched w s] by simp
  have c6: "NewThreadManager limit n cb = Inr t \<and> run sched (Start (boot t w)) = Next s
        \<and> mset (completed s) \<noteq> mset (fed s) \<longrightarrow> \<not> IsDone (tm s)"
    using unfinished_not_done [of limit n cb t sched w s] by simp
  show ?thesis by (intro conjI) (fact c1 c2 c3 c4 c5 c6)+
qed

text \<open>
  In the test scenario, at the poll after the fourth item has been received: two
  callbacks have returned, two are running, the counter is 2.
\<close>

theorem IsDone_false_while_unfinished_witness:
  "\<exists>t s. NewThreadManager 1024 2 test_callback = Inr t
     \<and> run test_schedule (Start (boot t [])) = Next s
     \<and> fed s = [''Foo'', ''Baar'', ''Baloo'', ''Golang'']
     \<and> completed s = [''Baar'', ''Foo'']
     \<and> world s = [''Baar'', ''Foo'']
     \<and> run_callbacks test_callback (completed s) [] = Some (world s)
     \<and> mset (completed s) \<noteq> mset (fed s)
     \<and> counter (tm s) = 2 \<and> \<not> IsDone (tm s)"
proof -
  have "\<exists>s. run test_schedule (Start (boot test_tm [])) = Next s
     \<and> fed s = [''Foo'', ''Baar'', ''Baloo'', ''Golang'']
     \<and> completed s = [''Baar'', ''Foo''] \<and> world s = [''Baar'', ''Foo'']
     \<and> counter (tm s) = 2"
    unfolding test_tm_started
    by (simp add: test_schedule_def step_defs test_callback_def test_tm_def)
  then obtain s where r: "run test_schedule (Start (boot test_tm [])) = Next s"
    and f: "fed s = [''Foo'', ''Baar'', ''Baloo'', ''Golang'']"
    and c: "completed s = [''Baar'', ''Foo'']" and v: "world s = [''Baar'', ''Foo'']"
    and k: "counter (tm s) = 2"
    by blast
  have u: "mset (completed s) \<noteq> mset (fed s)"
  proof
    assume "mset (completed s) = mset (fed s)"
    then have "length (completed s) = length (fed s)" by (rule mset_eq_length)
    then show False by (simp add: f c)
  qed
  note th = IsDone_false_while_unfinished [of _ _ _ _ _ 1024 2 test_callback test_tm
      test_schedule "[]" s]
  have "NewThreadManager 1024 2 test_callback = Inr test_tm
      \<and> run test_schedule (Start (boot test_tm [])) = Next s
      \<and> mset (completed s) \<noteq> mset (fed s) \<longrightarrow> \<not> IsDone (tm s)"
    by (rule th [THEN conjunct2, THEN conjunct2, THEN conjunct2, THEN conjunct2, THEN conjunct2])
  with test_tm_new r u have d: "\<not> IsDone (tm s)" by simp
  have "NewThreadManager 1024 2 test_callback = Inr test_tm
      \<and> run test_schedule (Start (boot test_tm [])) = Next s \<longrightarrow>
        run_callbacks test_callback (completed s) [] = Some (world s)"
    by (rule th [THEN conjunct2, THEN conjunct2, THEN conjunct2, THEN conjunct2, THEN conjunct1])
  with test_tm_new r have e: "run_callbacks test_callback (completed s) [] = Some (world s)"
    by simp
  from test_tm_new r f c v e u k d show ?thesis by blast
qed

text \<open>
  Claim C6. In every state of every interleaving of a started pool, the items are the
  fed items in feeding order: first those the workers have received, in the order of
  the receives, then those in the buffer, then the one the caller is sending. So the
  workers receive the items in the order they were fed; nothing is said of the order
  in which the callbacks return.
\<close>

theorem fifo_dequeue:
  assumes "NewThreadManager limit n cb = Inr t"
    and "run sched (Start (boot t w)) = Next s"
  shows "fed s = dequeued s @ buf (channel (tm s)) @ pending (feeding s)
    \<and> prefix (dequeued s) (fed s)"
proof -
  have "pool_inv s" using assms by (rule reachable_inv)
  then have "fed s = dequeued s @ buf (channel (tm s)) @ pending (feeding s)"
    by (simp add: pool_inv_def)
  then show ?thesis by (simp add: prefix_def)
qed

text \<open>
  In the test scenario after nine steps: two items received, one buffered, one being sent.
\<close>

theorem fifo_dequeue_witness:
  "\<exists>t s. NewThreadManager 1024 2 test_callback = Inr t
     \<and> run (take 9 test_schedule) (Start (boot t [])) = Next s
     \<and> fed s = [''Foo'', ''Baar'', ''Baloo'', ''Golang'']
     \<and> dequeued s = [''Foo'', ''Baar'']
     \<and> buf (channel (tm s)) = [''Baloo'']
     \<and> feeding s = Some ''Golang''
     \<and> fed s = dequeued s @ buf (channel (tm s)) @ pending (feeding s)
     \<and> prefix (dequeued s) (fed s)"
proof -
  have "\<exists>s. run (take 9 test_schedule) (Start (boot test_tm [])) = Next s
     \<and> fed s = [''Foo'', ''Baar'', ''Baloo'', ''Golang'']
     \<and> dequeued s = [''Foo'', ''Baar'']
     \<and> buf (channel (tm s)) = [''Baloo'']
     \<and> feeding s = Some ''Golang''"
    unfolding test_tm_started
    by (simp add: test_schedule_def step_defs test_callback_def test_tm_def)
  then obtain s where r: "run (take 9 test_schedule) (Start (boot test_tm [])) = Next s"
    and f: "fed s = [''Foo'', ''Baar'', ''Baloo'', ''Golang'']"
    and d: "dequeued s = [''Foo'', ''Baar'']"
    and b: "buf (channel (tm s)) = [''Baloo'']"
    and g: "feeding s = Some ''Golang''"
    by blast
  from fifo_dequeue [OF test_tm_new r] test_tm_new r f d b g show ?thesis by blast
qed

text \<open>
  Claim C7. \<open>Stop\<close> is one step that can take place in every state, whatever the
  counter and the workers are at: it waits for nothing. On an open channel it returns.
  When it returns it has closed the channel and changed nothing else: the buffer and
  capacity of the channel, the counter, the worker count and the callback are as before,
  and the goroutines are where they were.
\<close>

theorem Stop_only_closes:
  "step CallStop s \<noteq> Blocked
   \<and> (\<not> closed (channel (tm s)) \<longrightarrow> (\<exists>t'. Stop (tm s) = Inr t'))
   \<and> (Stop (tm s) = Inr t' \<longrightarrow>
        closed (channel t')
        \<and> buf (channel t') = buf (channel (tm s)) \<and> cap (channel t') = cap (channel (tm s))
        \<and> counter t' = counter (tm s) \<and> workers t' = workers (tm s)
        \<and> callback t' = callback (tm s)
        \<and> step CallStop s = Next (s\<lparr>tm := t'\<rparr>))"
proof -
  have c1: "step CallStop s \<noteq> Blocked"
    by (simp add: Stop_def close_chan_def)
  have c2: "\<not> closed (channel (tm s)) \<longrightarrow> (\<exists>t'. Stop (tm s) = Inr t')"
    by (simp add: Stop_def close_chan_def)
  have c3: "Stop (tm s) = Inr t' \<longrightarrow>
        closed (channel t')
        \<and> buf (channel t') = buf (channel (tm s)) \<and> cap (channel t') = cap (channel (tm s))
        \<and> counter t' = counter (tm s) \<and> workers t' = workers (tm s)
        \<and> callback t' = callback (tm s)
        \<and> step CallStop s = Next (s\<lparr>tm := t'\<rparr>)"
    by (auto simp add: Stop_def close_chan_def split: if_splits)
  show ?thesis by (intro conjI) (fact c1 c2 c3)+
qed

text \<open>
  In the test scenario, while two callbacks are running and the counter is 2.
\<close>

theorem Stop_only_closes_witness:
  "\<exists>t s t'. NewThreadManager 1024 2 test_callback = Inr t
     \<and> run test_schedule (Start (boot t [])) = Next s
     \<and> \<not> closed (channel (tm s))
     \<and> counter (tm s) = 2
     \<and> goroutines s = [Calling ''Golang'', Calling ''Baloo'']
     \<and> Stop (tm s) = Inr t'
     \<and> closed (channel t') \<and> counter t' = 2
     \<and> step CallStop s = Next (s\<lparr>tm := t'\<rparr>)"
proof -
  have "\<exists>s. run test_schedule (Start (boot test_tm [])) = Next s
     \<and> \<not> closed (channel (tm s)) \<and> counter (tm s) = 2
     \<and> goroutines s = [Calling ''Golang'', Calling ''Baloo'']"
    unfolding test_tm_started
    by (simp add: test_schedule_def step_defs test_callback_def test_tm_def)
  then obtain s where r: "run test_schedule (Start (boot test_tm [])) = Next s"
    and o: "\<not> closed (channel (tm s))" and k: "counter (tm s) = 2"
    and g: "goroutines s = [Calling ''Golang'', Calling ''Baloo'']"
    by blast
  from Stop_only_closes [of s] o obtain t' where t': "Stop (tm s) = Inr t'"
    by blast
  from Stop_only_closes [of s t'] t'
  have "closed (channel t')" "counter t' = counter (tm s)"
    "step CallStop s = Next (s\<lparr>tm := t'\<rparr>)"
    by blast+
  with test_tm_new r o k g t' show ?thesis by (metis (no_types))
qed

text \<open>
  Claim C5, as the code has it. \<open>Stop\<close> has no guard against a second call: a
  \<open>Stop\<close> that returned has closed the channel, and a \<open>Stop\<close> on that pool, at once
  or after any further steps of the program, panics with "close of closed channel". It
  is not a no-op and it returns no error value.
\<close>

theorem Stop_twice_panics:
  "(Stop t = Inr t1 \<longrightarrow> closed (channel t1) \<and> Stop t1 = Inl CloseOfClosedChannel)
   \<and> (step CallStop s = Next s1 \<and> run sched s1 = Next s2 \<longrightarrow>
        step CallStop s2 = Panic CloseOfClosedChannel)"
proof -
  have c1: "Stop t = Inr t1 \<longrightarrow> closed (channel t1) \<and> Stop t1 = Inl CloseOfClosedChannel"
    using Stop_closes [of t t1] Stop_closed [of t1] by simp
  have c2: "step CallStop s = Next s1 \<and> run sched s1 = Next s2 \<longrightarrow>
        step CallStop s2 = Panic CloseOfClosedChannel"
  proof
    assume a: "step CallStop s = Next s1 \<and> run sched s1 = Next s2"
    then obtain t1 where "Stop (tm s) = Inr t1" and "s1 = s\<lparr>tm := t1\<rparr>"
      by (auto split: sum.splits)
    then have "closed (channel (tm s1))" using Stop_closes [of "tm s" t1] by simp
    with a have "closed (channel (tm s2))" using run_closed by blast
    then show "step CallStop s2 = Panic CloseOfClosedChannel"
      by (simp add: Stop_closed)
  qed
  show ?thesis by (intro conjI) (fact c1 c2)+
qed

text \<open>On the pool of the test.\<close>

theorem Stop_twice_panics_witness:
  "\<exists>t1 s1 s2. Stop test_tm = Inr t1 \<and> Stop t1 = Inl CloseOfClosedChannel
     \<and> step CallStop (Start (boot test_tm [])) = Next s1
     \<and> run [CallFeed ''Foo'', CallIsDone, Exit 0] s1 = Next s2
     \<and> step CallStop s2 = Panic CloseOfClosedChannel"
proof -
  have "\<exists>t1. Stop test_tm = Inr t1"
    by (simp add: Stop_def close_chan_def test_tm_def)
  then obtain t1 where t: "Stop test_tm = Inr t1" by blast
  have "\<exists>s1. step CallStop (Start (boot test_tm [])) = Next s1
     \<and> (\<exists>s2. run [CallFeed ''Foo'', CallIsDone, Exit 0] s1 = Next s2)"
    unfolding test_tm_started
    by (simp add: step_defs test_tm_def)
  then obtain s1 s2 where s: "step CallStop (Start (boot test_tm [])) = Next s1"
    and r: "run [CallFeed ''Foo'', CallIsDone, Exit 0] s1 = Next s2"
    by blast
  from Stop_twice_panics [of test_tm t1 "Start (boot test_tm [])" s1
      "[CallFeed ''Foo'', CallIsDone, Exit 0]" s2] t s r
  show ?thesis by blast
qed

text \<open>
  Claim C5 as stated fails: two calls of \<open>Stop\<close> in a row on the started pool of the
  test end in the panic.
\<close>

theorem Stop_twice_counterexample:
  "bind_panic (Stop test_tm) Stop = Inl CloseOfClosedChannel
   \<and> run [CallStop, CallStop] (Start (boot test_tm [])) = Panic CloseOfClosedChannel"
  unfolding test_tm_started
  by (simp add: bind_panic_def step_defs test_tm_def)


text \<open>
  Claim C4, as the code has it. \<open>NewThreadManager\<close> does not look at the worker count
  itself. A negative count makes the allocation of the channel panic, at construction.
  A count of zero is accepted: the constructor returns a pool with worker count 0 and a
  channel without buffer, neither rejected nor clamped. On that pool, once started, there
  is no worker and nothing ever leaves the caller: no item is buffered, received or
  completed, and the send of a \<open>Feed\<close> never completes, neither by buffering nor by
  handing the item to a worker.
\<close>

theorem NewThreadManager_nonpositive:
  "(n <s 0 \<longrightarrow> NewThreadManager limit n cb = Inl MakechanSizeOutOfRange)
   \<and> (0 \<le>s limit \<longrightarrow> NewThreadManager limit 0 cb =
         Inr \<lparr>channel = \<lparr>buf = [], cap = 0, closed = False\<rparr>, workers = 0,
              callback = cb, counter = 0\<rparr>)
   \<and> (NewThreadManager limit 0 cb = Inr t \<and> run sched (Start (boot t w)) = Next s \<longrightarrow>
         goroutines s = [] \<and> buf (channel (tm s)) = []
         \<and> dequeued s = [] \<and> completed s = [] \<and> fed s = pending (feeding s)
         \<and> step Send s \<noteq> Next s' \<and> step (Handoff i) s \<noteq> Next s')"
proof -
  have c1: "n <s 0 \<longrightarrow> NewThreadManager limit n cb = Inl MakechanSizeOutOfRange"
    using negative_workers_panic [of n limit cb] by (rule impI)
  have c2: "0 \<le>s limit \<longrightarrow> NewThreadManager limit 0 cb =
         Inr \<lparr>channel = \<lparr>buf = [], cap = 0, closed = False\<rparr>, workers = 0,
              callback = cb, counter = 0\<rparr>"
    using zero_workers_accepted [of limit cb] by (rule impI)
  have c3: "NewThreadManager limit 0 cb = Inr t \<and> run sched (Start (boot t w)) = Next s \<longrightarrow>
         goroutines s = [] \<and> buf (channel (tm s)) = []
         \<and> dequeued s = [] \<and> completed s = [] \<and> fed s = pending (feeding s)
         \<and> step Send s \<noteq> Next s' \<and> step (Handoff i) s \<noteq> Next s'"
  proof
    assume a: "NewThreadManager limit 0 cb = Inr t \<and> run sched (Start (boot t w)) = Next s"
    then have n: "NewThreadManager limit 0 cb = Inr t"
      and r: "run sched (Start (boot t w)) = Next s" by simp_all
    have w: "no_workers s"
      using zero_workers_started [OF n] r by (rule run_no_workers)
    have i: "pool_inv s" using n r by (rule reachable_inv)
    from w have e: "goroutines s = []" "buf (channel (tm s)) = []" "dequeued s = []"
      "completed s = []" by (simp_all add: no_workers_def)
    from i e have f: "fed s = pending (feeding s)" by (simp add: pool_inv_def)
    from e f no_workers_stuck [OF w]
    show "goroutines s = [] \<and> buf (channel (tm s)) = []
         \<and> dequeued s = [] \<and> completed s = [] \<and> fed s = pending (feeding s)
         \<and> step Send s \<noteq> Next s' \<and> step (Handoff i) s \<noteq> Next s'"
      by simp
  qed
  show ?thesis by (intro conjI) (fact c1 c2 c3)+
qed

text \<open>
  At the counts \<open>-1\<close> and \<open>0\<close>: the first panics, the second gives a pool on which the
  caller is suspended in its first \<open>Feed\<close>.
\<close>

theorem NewThreadManager_nonpositive_witness:
  "(-1 :: go_int) <s 0 \<and> NewThreadManager 1024 (-1) test_callback = Inl MakechanSizeOutOfRange
   \<and> (0 :: go_int) \<le>s 1024 \<and> NewThreadManager 1024 0 test_callback = Inr zero_tm
   \<and> (\<exists>s. run [CallFeed ''Foo'', CallIsDone] (Start (boot zero_tm [])) = Next s
        \<and> goroutines s = [] \<and> buf (channel (tm s)) = [] \<and> dequeued s = []
        \<and> fed s = [''Foo''] \<and> feeding s = Some ''Foo''
        \<and> step Send s = Blocked \<and> step (Handoff 0) s = Blocked)"
proof -
  have m: "(-1 :: go_int) <s 0" by (simp add: word_sless_alt)
  have l: "(0 :: go_int) \<le>s 1024" by (simp add: word_sle_eq)
  have "\<exists>s. run [CallFeed ''Foo'', CallIsDone] (Start (boot zero_tm [])) = Next s
        \<and> fed s = [''Foo''] \<and> feeding s = Some ''Foo''
        \<and> step Send s = Blocked \<and> step (Handoff 0) s = Blocked"
    unfolding zero_tm_started
    by (simp add: step_defs zero_tm_def)
  then obtain s where r: "run [CallFeed ''Foo'', CallIsDone] (Start (boot zero_tm [])) = Next s"
    and f: "fed s = [''Foo'']" "feeding s = Some ''Foo''"
    and b: "step Send s = Blocked" "step (Handoff 0) s = Blocked"
    by blast
  note t = NewThreadManager_nonpositive [of "-1" 1024 test_callback zero_tm
      "[CallFeed ''Foo'', CallIsDone]" "[]" s]
  from t m have p: "NewThreadManager 1024 (-1) test_callback = Inl MakechanSizeOutOfRange"
    by blast
  from t zero_tm_new r
  have "goroutines s = [] \<and> buf (channel (tm s)) = [] \<and> dequeued s = []" by blast
  with m l p zero_tm_new r f b show ?thesis by blast
qed

text \<open>
  Claim C4 as stated fails at the count zero: the constructor returns a pool, with zero
  workers and capacity zero, and the first \<open>Feed\<close> on the started pool blocks.
\<close>

theorem NewThreadManager_zero_counterexample:
  "NewThreadManager 1024 0 test_callback = Inr zero_tm
   \<and> workers zero_tm = 0 \<and> cap (channel zero_tm) = 0
   \<and> goroutines (Start (boot zero_tm [])) = []
   \<and> run [CallFeed ''Foo'', Send] (Start (boot zero_tm [])) = Blocked"
  unfolding zero_tm_started
  by (simp add: zero_tm_new) (simp add: step_defs zero_tm_def)

end
